theory Spec2Isabelle
  imports Main
begin

section \<open>Tasks, priorities and status events\<close>

text \<open>
  Embedding of \<^verbatim>\<open>backend/tts_service.py\<close>. \<^verbatim>\<open>Priority\<close> is the source's
  \<^verbatim>\<open>IntEnum\<close>, \<^verbatim>\<open>TtsTask\<close> its dataclass (the field \<^verbatim>\<open>text\<close> is called
  \<open>task_text\<close> here, the word being reserved).
\<close>

datatype Priority = HIGH | NORMAL

record TtsTask =
  task_text :: string
  priority :: Priority
  key :: "string option"
  room_id :: "int option"

text \<open>A status event is the argument triple of \<^verbatim>\<open>_emit_status(room_id, key, status)\<close>.\<close>

type_synonym status_event = "int option \<times> string option \<times> string"

section \<open>The capacity field\<close>

text \<open>
  \<^verbatim>\<open>_max_size\<close> is an untyped attribute: the constructor stores whatever it is given and
  \<^verbatim>\<open>enqueue_text\<close> overwrites it. \<open>PyOther\<close> stands for any value that is not an instance
  of \<^verbatim>\<open>int\<close> (a float, a string); \<^verbatim>\<open>bool\<close> is a subclass of \<^verbatim>\<open>int\<close> in Python, so
  \<^verbatim>\<open>True\<close> passes \<^verbatim>\<open>isinstance(_, int) and _ > 0\<close> and compares as 1.
\<close>

datatype pyval = PyNone | PyInt int | PyBool bool | PyOther

text \<open>
  \<^verbatim>\<open>cap = self._max_size if isinstance(self._max_size, int) and self._max_size > 0 else None\<close>
\<close>

fun cap_of :: "pyval \<Rightarrow> int option" where
  "cap_of (PyInt n) = (if n > 0 then Some n else None)"
| "cap_of (PyBool b) = (if b then Some 1 else None)"
| "cap_of PyNone = None"
| "cap_of PyOther = None"

section \<open>The predict queue\<close>

record PredictQueue =
  pq_max_size :: pyval
  pq_high :: "TtsTask list"
  pq_normal :: "TtsTask list"

definition pq_size :: "PredictQueue \<Rightarrow> nat" where
  "pq_size q = length (pq_high q) + length (pq_normal q)"

text \<open>The tail of \<^verbatim>\<open>push\<close>: append to the deque of the task's priority.\<close>

definition pq_enqueue :: "PredictQueue \<Rightarrow> TtsTask \<Rightarrow> PredictQueue" where
  "pq_enqueue q task =
     (if priority task = HIGH then q\<lparr>pq_high := pq_high q @ [task]\<rparr>
      else q\<lparr>pq_normal := pq_normal q @ [task]\<rparr>)"

text \<open>
  The eviction branch of \<^verbatim>\<open>push\<close>: \<^verbatim>\<open>popleft\<close> from the NORMAL deque if it is not
  empty, else from the HIGH deque, else nothing.
\<close>

definition pq_evict :: "PredictQueue \<Rightarrow> TtsTask option \<times> PredictQueue" where
  "pq_evict q =
     (case pq_normal q of
        n # ns \<Rightarrow> (Some n, q\<lparr>pq_normal := ns\<rparr>)
      | [] \<Rightarrow>
          (case pq_high q of
             h # hs \<Rightarrow> (Some h, q\<lparr>pq_high := hs\<rparr>)
           | [] \<Rightarrow> (None, q)))"

text \<open>
  \<^verbatim>\<open>_PredictQueue.push\<close>. The result is the returned flag, the task handed to
  \<^verbatim>\<open>_on_evict\<close> (if any; a dataclass instance is always truthy) and the queue afterwards.
\<close>

definition pq_push :: "PredictQueue \<Rightarrow> TtsTask \<Rightarrow> bool \<times> TtsTask option \<times> PredictQueue" where
  "pq_push q task =
     (case cap_of (pq_max_size q) of
        None \<Rightarrow> (True, None, pq_enqueue q task)
      | Some cap \<Rightarrow>
          if int (pq_size q) \<ge> cap then
            (if priority task = HIGH then
               (let (evicted, q1) = pq_evict q in (True, evicted, pq_enqueue q1 task))
             else (False, None, q))
          else (True, None, pq_enqueue q task))"

text \<open>
  \<^verbatim>\<open>_PredictQueue.pop\<close>. On an empty queue the caller waits on the condition variable;
  that is the value \<open>None\<close> here.
\<close>

definition pq_pop :: "PredictQueue \<Rightarrow> (TtsTask \<times> PredictQueue) option" where
  "pq_pop q =
     (case pq_high q of
        h # hs \<Rightarrow> Some (h, q\<lparr>pq_high := hs\<rparr>)
      | [] \<Rightarrow>
          (case pq_normal q of
             n # ns \<Rightarrow> Some (n, q\<lparr>pq_normal := ns\<rparr>)
           | [] \<Rightarrow> None))"

section \<open>The audio queue\<close>

text \<open>
  \<^verbatim>\<open>_AudioQueue\<close> holds pairs of a decoded audio segment (opaque, the type \<open>'a\<close>) and
  the task it was rendered from, in one deque.
\<close>

record 'a AudioQueue =
  aq_max_size :: pyval
  aq_q :: "('a \<times> TtsTask) list"

text \<open>
  \<^verbatim>\<open>_AudioQueue.push\<close> returns nothing; the result here is the task handed to
  \<^verbatim>\<open>_on_evict\<close> (if any) and the queue afterwards. \<^verbatim>\<open>popleft\<close> on an empty deque raises
  and leaves \<^verbatim>\<open>evicted = None\<close>.
\<close>

definition aq_push :: "'a AudioQueue \<Rightarrow> 'a \<times> TtsTask \<Rightarrow> TtsTask option \<times> 'a AudioQueue" where
  "aq_push a item =
     (case cap_of (aq_max_size a) of
        None \<Rightarrow> (None, a\<lparr>aq_q := aq_q a @ [item]\<rparr>)
      | Some cap \<Rightarrow>
          if int (length (aq_q a)) \<ge> cap then
            (case aq_q a of
               x # xs \<Rightarrow> (Some (snd x), a\<lparr>aq_q := xs @ [item]\<rparr>)
             | [] \<Rightarrow> (None, a\<lparr>aq_q := [item]\<rparr>))
          else (None, a\<lparr>aq_q := aq_q a @ [item]\<rparr>))"

definition aq_pop :: "'a AudioQueue \<Rightarrow> (('a \<times> TtsTask) \<times> 'a AudioQueue) option" where
  "aq_pop a =
     (case aq_q a of
        x # xs \<Rightarrow> Some (x, a\<lparr>aq_q := xs\<rparr>)
      | [] \<Rightarrow> None)"

section \<open>Sequences of queue operations\<close>

datatype 'x qop = Push 'x | Pop

text \<open>What a caller observes of one operation, the same for both queues.\<close>

datatype obs =
    Pushed bool "TtsTask option"
  | Popped "TtsTask option"

fun pq_exec :: "PredictQueue \<Rightarrow> TtsTask qop list \<Rightarrow> obs list \<times> PredictQueue" where
  "pq_exec q [] = ([], q)"
| "pq_exec q (Push t # ops) =
     (let (ok, ev, q1) = pq_push q t; (os, q2) = pq_exec q1 ops
      in (Pushed ok ev # os, q2))"
| "pq_exec q (Pop # ops) =
     (case pq_pop q of
        None \<Rightarrow> (let (os, q2) = pq_exec q ops in (Popped None # os, q2))
      | Some (t, q1) \<Rightarrow> (let (os, q2) = pq_exec q1 ops in (Popped (Some t) # os, q2)))"

fun aq_exec :: "'a AudioQueue \<Rightarrow> ('a \<times> TtsTask) qop list \<Rightarrow> obs list \<times> 'a AudioQueue" where
  "aq_exec a [] = ([], a)"
| "aq_exec a (Push x # ops) =
     (let (ev, a1) = aq_push a x; (os, a2) = aq_exec a1 ops
      in (Pushed True ev # os, a2))"
| "aq_exec a (Pop # ops) =
     (case aq_pop a of
        None \<Rightarrow> (let (os, a2) = aq_exec a ops in (Popped None # os, a2))
      | Some (x, a1) \<Rightarrow> (let (os, a2) = aq_exec a1 ops in (Popped (Some (snd x)) # os, a2)))"

text \<open>The tasks of a sequence of audio-queue operations, for running it on the predict queue.\<close>

fun task_op :: "('a \<times> TtsTask) qop \<Rightarrow> TtsTask qop" where
  "task_op (Push x) = Push (snd x)"
| "task_op Pop = Pop"

text \<open>
  Reading a run: the tasks a sequence of operations pushes, the tasks that entered the
  queue (pushed and accepted), the tasks that left it (evicted by a push or returned by a
  pop), each in the order of the operations, and the tasks of one priority among them.
\<close>

fun pushed :: "'x qop list \<Rightarrow> 'x list" where
  "pushed [] = []"
| "pushed (Push x # ops) = x # pushed ops"
| "pushed (Pop # ops) = pushed ops"

fun entered :: "TtsTask qop \<Rightarrow> obs \<Rightarrow> TtsTask list" where
  "entered (Push t) (Pushed adm ev) = (if adm then [t] else [])"
| "entered _ _ = []"

fun departed :: "obs \<Rightarrow> TtsTask list" where
  "departed (Pushed adm ev) = (case ev of None \<Rightarrow> [] | Some v \<Rightarrow> [v])"
| "departed (Popped r) = (case r of None \<Rightarrow> [] | Some v \<Rightarrow> [v])"

definition admitted :: "TtsTask qop list \<Rightarrow> obs list \<Rightarrow> TtsTask list" where
  "admitted ops os = concat (map2 entered ops os)"

definition removed :: "obs list \<Rightarrow> TtsTask list" where
  "removed os = concat (map departed os)"

definition of_priority :: "Priority \<Rightarrow> TtsTask list \<Rightarrow> TtsTask list" where
  "of_priority p ts = filter (\<lambda>t. priority t = p) ts"

text \<open>Popping until the queue is empty: the order in which a worker receives the tasks.\<close>

function pq_drain :: "PredictQueue \<Rightarrow> TtsTask list" where
  "pq_drain q = (case pq_pop q of None \<Rightarrow> [] | Some (t, q1) \<Rightarrow> t # pq_drain q1)"
  by pat_completeness auto
termination
  by (relation "measure pq_size")
     (auto simp: pq_pop_def pq_size_def split: list.splits)

declare pq_drain.simps [simp del]

text \<open>
  What \<^verbatim>\<open>push\<close> maintains: the HIGH deque holds HIGH tasks only, the NORMAL deque
  NORMAL tasks only.
\<close>

definition pq_wf :: "PredictQueue \<Rightarrow> bool" where
  "pq_wf q = ((\<forall>t \<in> set (pq_high q). priority t = HIGH) \<and>
              (\<forall>t \<in> set (pq_normal q). priority t = NORMAL))"

text \<open>The queues as \<^verbatim>\<open>__init__\<close> leaves them, and a task to run examples on.\<close>

definition pq_empty :: "pyval \<Rightarrow> PredictQueue" where
  "pq_empty m = \<lparr>pq_max_size = m, pq_high = [], pq_normal = []\<rparr>"

definition aq_empty :: "pyval \<Rightarrow> 'a AudioQueue" where
  "aq_empty m = \<lparr>aq_max_size = m, aq_q = []\<rparr>"

definition mk_task :: "string \<Rightarrow> Priority \<Rightarrow> TtsTask" where
  "mk_task k p = \<lparr>task_text = k, priority = p, key = Some k, room_id = Some 1\<rparr>"

section \<open>The service facade\<close>

text \<open>The fields of \<^verbatim>\<open>models.Settings\<close> that the service reads in the code below.\<close>

record Settings =
  tts_enabled :: bool
  max_tts_queue_size :: int
  gradio_server_url :: string
  sovits_model :: string
  gpt_model :: string
  text_lang :: string

text \<open>
  \<^verbatim>\<open>TTSService\<close>: configuration, the two queues and the status listener. \<open>emitted\<close>
  records every call of \<^verbatim>\<open>_emit_status\<close> (its debug line \<^verbatim>\<open>TTS_STATUS\<close>),
  \<open>delivered\<close> the calls that reach the registered listener.
\<close>

record 'a TTSService =
  cfg :: "Settings option"
  predict_q :: PredictQueue
  audio_q :: "'a AudioQueue"
  status_listener :: bool
  emitted :: "status_event list"
  delivered :: "status_event list"

definition emit_status :: "status_event \<Rightarrow> 'a TTSService \<Rightarrow> 'a TTSService" where
  "emit_status ev s =
     s\<lparr>emitted := emitted s @ [ev],
       delivered := (if status_listener s then delivered s @ [ev] else delivered s)\<rparr>"

text \<open>
  The eviction callback both queues get in \<^verbatim>\<open>TTSService.__init__\<close>:
  \<^verbatim>\<open>lambda t: self._emit_status(t.room_id, t.key, "cancelled")\<close>.
\<close>

definition on_evict :: "TtsTask option \<Rightarrow> 'a TTSService \<Rightarrow> 'a TTSService" where
  "on_evict ev s =
     (case ev of None \<Rightarrow> s | Some t \<Rightarrow> emit_status (room_id t, key t, ''cancelled'') s)"

text \<open>
  \<^verbatim>\<open>max_q = getattr(cfg, "max_tts_queue_size", None) or getattr(cfg, "tts_max_queue_size", None)\<close>:
  \<^verbatim>\<open>Settings\<close> has no field \<^verbatim>\<open>tts_max_queue_size\<close>, so a zero \<^verbatim>\<open>max_tts_queue_size\<close>
  gives \<^verbatim>\<open>None\<close>; then \<^verbatim>\<open>cap = int(max_q) if max_q is not None else None\<close>.
\<close>

definition configured_cap :: "Settings \<Rightarrow> pyval" where
  "configured_cap c =
     (if max_tts_queue_size c \<noteq> 0 then PyInt (max_tts_queue_size c) else PyNone)"

text \<open>
  \<^verbatim>\<open>TTSService.enqueue_text\<close>. The loop over the replacement rules (\<^verbatim>\<open>re.sub\<close>) is
  the parameter \<open>replace\<close>.
\<close>

definition enqueue_text ::
  "(Settings \<Rightarrow> string \<Rightarrow> string) \<Rightarrow> 'a TTSService \<Rightarrow> string \<Rightarrow> Priority \<Rightarrow>
     string option \<Rightarrow> int option \<Rightarrow> bool \<times> 'a TTSService" where
  "enqueue_text replace s txt prio k room =
     (case cfg s of
        None \<Rightarrow> (False, s)
      | Some c \<Rightarrow>
          if \<not> tts_enabled c then (False, s)
          else
            (let t = replace c txt;
                 cap = configured_cap c;
                 pq = (predict_q s)\<lparr>pq_max_size := cap\<rparr>;
                 aq = (audio_q s)\<lparr>aq_max_size := cap\<rparr>;
                 (ok, evicted, pq1) =
                   pq_push pq \<lparr>task_text = t, priority = prio, key = k, room_id = room\<rparr>;
                 s1 = on_evict evicted (s\<lparr>predict_q := pq1, audio_q := aq\<rparr>)
             in if ok then (True, emit_status (room, k, ''pending'') s1)
                else (False,
                      if k \<noteq> None then emit_status (room, k, ''cancelled'') s1 else s1)))"

text \<open>The service as \<^verbatim>\<open>TTSService.__init__\<close> leaves it.\<close>

definition new_service :: "'a TTSService" where
  "new_service =
     \<lparr>cfg = None, predict_q = pq_empty PyNone, audio_q = aq_empty PyNone,
      status_listener = False, emitted = [], delivered = []\<rparr>"

section \<open>The playback worker\<close>

text \<open>
  What the environment does during one iteration of \<^verbatim>\<open>_play_worker\<close>: whether
  \<^verbatim>\<open>audio.export\<close> returns, whether \<^verbatim>\<open>winsound.PlaySound\<close> returns, whether
  \<^verbatim>\<open>shutil.which("ffplay")\<close> finds a program and whether \<^verbatim>\<open>subprocess.run\<close> returns.
\<close>

record play_env =
  export_ok :: bool
  winsound_ok :: bool
  ffplay_found :: bool
  ffplay_ok :: bool

text \<open>The warning and error lines of the worker.\<close>

datatype play_log = Winsound_failed | FFplay_failed | Play_worker_error

text \<open>
  The inner \<^verbatim>\<open>try\<close>: \<^verbatim>\<open>PlaySound\<close>, on failure \<^verbatim>\<open>ffplay\<close>; the bare \<^verbatim>\<open>raise\<close> when
  \<^verbatim>\<open>ffplay\<close> is missing is caught by the same handler as a failing \<^verbatim>\<open>ffplay\<close>.
\<close>

definition render :: "play_env \<Rightarrow> play_log list" where
  "render env =
     (if winsound_ok env then []
      else Winsound_failed #
        (if ffplay_found env then (if ffplay_ok env then [] else [FFplay_failed])
         else [FFplay_failed]))"

text \<open>
  One iteration of the loop of \<^verbatim>\<open>_play_worker\<close>; \<open>None\<close> when \<^verbatim>\<open>pop\<close> waits.
  \<^verbatim>\<open>audio.export\<close> stands between the \<^verbatim>\<open>playing\<close> event and the
  \<^verbatim>\<open>try ... finally\<close> that emits \<^verbatim>\<open>done\<close>; when it raises, the outer handler logs
  and the loop goes on.
\<close>

definition play_worker_step ::
  "play_env \<Rightarrow> 'a TTSService \<Rightarrow> (play_log list \<times> 'a TTSService) option" where
  "play_worker_step env s =
     (case aq_pop (audio_q s) of
        None \<Rightarrow> None
      | Some (item, a1) \<Rightarrow>
          (let task = snd item;
               s1 = emit_status (room_id task, key task, ''playing'') (s\<lparr>audio_q := a1\<rparr>)
           in if \<not> export_ok env then Some ([Play_worker_error], s1)
              else Some (render env, emit_status (room_id task, key task, ''done'') s1)))"

section \<open>Model selection\<close>

text \<open>
  Python's \<^verbatim>\<open>str.strip()\<close>, \<^verbatim>\<open>str.rstrip("/")\<close>, \<^verbatim>\<open>str.lstrip("/")\<close> and
  \<^verbatim>\<open>str.endswith("/")\<close>. A \<open>char\<close> is a code point below 256; the code points there
  that \<^verbatim>\<open>str.isspace\<close> accepts are 9 to 13, 28 to 32, 133 (U+0085) and 160 (U+00A0).
\<close>

definition is_space :: "char \<Rightarrow> bool" where
  "is_space c =
     (let n = (of_char c :: nat)
      in (9 \<le> n \<and> n \<le> 13) \<or> (28 \<le> n \<and> n \<le> 32) \<or> n = 133 \<or> n = 160)"

definition strip :: "string \<Rightarrow> string" where
  "strip s = rev (dropWhile is_space (rev (dropWhile is_space s)))"

definition rstrip_slash :: "string \<Rightarrow> string" where
  "rstrip_slash s = rev (dropWhile (\<lambda>c. c = CHR ''/'') (rev s))"

definition lstrip_slash :: "string \<Rightarrow> string" where
  "lstrip_slash s = dropWhile (\<lambda>c. c = CHR ''/'') s"

definition endswith_slash :: "string \<Rightarrow> bool" where
  "endswith_slash s = (s \<noteq> [] \<and> last s = CHR ''/'')"

subsection \<open>The protocol client\<close>

text \<open>
  \<^verbatim>\<open>_GradioClient\<close>: its base URL, whether a session is open, and \<^verbatim>\<open>_fn_map\<close>. The
  dictionary is an association list read with \<open>map_of\<close>; an assignment puts the new pair
  in front, so the latest value of a name is the one found.
\<close>

record GradioClient =
  base_url :: string
  session :: bool
  fn_map :: "(string \<times> int) list"

definition new_client :: "string \<Rightarrow> GradioClient" where
  "new_client base =
     \<lparr>base_url = (if endswith_slash base then base else base @ ''/''), session = False,
      fn_map = []\<rparr>"

text \<open>
  One record of the descriptor's \<^verbatim>\<open>dependencies\<close>: its \<^verbatim>\<open>api_name\<close> when that is a
  string (\<open>None\<close> for a missing, null or false name) and its \<^verbatim>\<open>id\<close> when it has one.
\<close>

type_synonym dep = "string option \<times> int option"

text \<open>
  The loop of \<^verbatim>\<open>_load_config\<close> over \<^verbatim>\<open>enumerate(deps)\<close>: a record with a non-empty
  name sets \<^verbatim>\<open>_fn_map[name.strip().lstrip("/")]\<close> to its \<^verbatim>\<open>id\<close>, or to its position
  when it has none.
\<close>

fun load_deps :: "nat \<Rightarrow> dep list \<Rightarrow> (string \<times> int) list \<Rightarrow> (string \<times> int) list" where
  "load_deps i [] m = m"
| "load_deps i ((name, ident) # ds) m =
     load_deps (Suc i) ds
       (case name of
          None \<Rightarrow> m
        | Some n \<Rightarrow>
            if n = [] then m
            else (lstrip_slash (strip n), (case ident of None \<Rightarrow> int i | Some k \<Rightarrow> k)) # m)"

text \<open>
  What the remote side does during one call of a selection function: the descriptor it
  serves to a \<^verbatim>\<open>GET\<close> of \<^verbatim>\<open>config\<close> (\<open>None\<close> when that request fails) and whether
  the \<^verbatim>\<open>POST\<close> of each selection call, if one is sent, is answered with data.
\<close>

record remote_env =
  config :: "dep list option"
  sovits_ok :: bool
  gpt_ok :: bool

text \<open>
  \<^verbatim>\<open>_GradioClient.ensure\<close>: with no session, open one and load the descriptor. The
  session is assigned before the descriptor is fetched and stays when the fetch raises.
  The flag tells whether \<^verbatim>\<open>ensure\<close> returned.
\<close>

definition ensure :: "remote_env \<Rightarrow> GradioClient \<Rightarrow> bool \<times> GradioClient" where
  "ensure env cl =
     (if session cl then (True, cl)
      else
        (case config env of
           None \<Rightarrow> (False, cl\<lparr>session := True\<rparr>)
         | Some deps \<Rightarrow>
             (True, cl\<lparr>session := True, fn_map := load_deps 0 deps (fn_map cl)\<rparr>)))"

text \<open>
  \<^verbatim>\<open>_GradioClient.predict\<close> for a call without file arguments: \<^verbatim>\<open>ensure\<close>, the lookup
  of the name in \<^verbatim>\<open>_fn_map\<close> (a miss raises before anything is sent), then the
  \<^verbatim>\<open>POST\<close>. The result is whether \<^verbatim>\<open>predict\<close> returned, the requests sent to
  \<^verbatim>\<open>api/predict/\<close> and the client afterwards.
\<close>

definition predict ::
  "remote_env \<Rightarrow> string \<Rightarrow> bool \<Rightarrow> GradioClient \<Rightarrow> bool \<times> string list \<times> GradioClient" where
  "predict env api answered cl =
     (let (ensured, cl1) = ensure env cl in
      if \<not> ensured then (False, [], cl1)
      else
        (case map_of (fn_map cl1) (lstrip_slash (strip api)) of
           None \<Rightarrow> (False, [], cl1)
         | Some fn \<Rightarrow> (answered, [api], cl1)))"

text \<open>
  The two selection calls behind the signature test of both selection functions; the
  second is made only when the first returns.
\<close>

definition select_models :: "remote_env \<Rightarrow> GradioClient \<Rightarrow> bool \<times> string list \<times> GradioClient" where
  "select_models env cl =
     (let (r1, p1, cl1) = predict env ''/change_sovits_weights'' (sovits_ok env) cl in
      if \<not> r1 then (False, p1, cl1)
      else
        (let (r2, p2, cl2) = predict env ''/change_gpt_weights'' (gpt_ok env) cl1
         in (r2, p1 @ p2, cl2)))"

type_synonym signature = "string \<times> string \<times> string \<times> string"

definition sig_of :: "string \<Rightarrow> Settings \<Rightarrow> signature" where
  "sig_of base c = (base, sovits_model c, gpt_model c, text_lang c)"

subsection \<open>In the predict worker\<close>

record worker_sel =
  w_client :: "GradioClient option"
  w_selected_sig :: "signature option"
  gradio_ready :: bool

text \<open>
  \<^verbatim>\<open>_predict_worker._ensure_and_select_models\<close>: the returned flag, the selection
  requests sent and the state afterwards. Its handler drops the client (the
  \<^verbatim>\<open>client.close()\<close> there is a coroutine that is never awaited).
\<close>

definition ensure_and_select_models ::
  "Settings option \<Rightarrow> remote_env \<Rightarrow> worker_sel \<Rightarrow> bool \<times> string list \<times> worker_sel" where
  "ensure_and_select_models cfg_opt env st =
     (case cfg_opt of
        None \<Rightarrow> (False, [], st)
      | Some c \<Rightarrow>
          (let base = strip (gradio_server_url c) in
           if base = [] then (False, [], st)
           else
             (let (cl, sel) =
                    (case w_client st of
                       None \<Rightarrow> (new_client base, None)
                     | Some c0 \<Rightarrow>
                         if rstrip_slash (base_url c0) \<noteq>
                            rstrip_slash (if endswith_slash base then base else base @ ''/'')
                         then (new_client base, None)
                         else (c0, w_selected_sig st));
                  sig = sig_of base c
              in if sel \<noteq> Some sig then
                   (let (returned, posts, cl1) = select_models env cl in
                    if returned then
                      (True, posts,
                       st\<lparr>w_client := Some cl1, w_selected_sig := Some sig,
                          gradio_ready := True\<rparr>)
                    else
                      (False, posts,
                       st\<lparr>w_client := None, w_selected_sig := None, gradio_ready := False\<rparr>))
                 else (True, [], st\<lparr>w_client := Some cl, w_selected_sig := sel\<rparr>))))"

text \<open>
  Consecutive calls under the same settings. Each entry of the trace is the state before
  the call, the returned flag, the selection requests sent and the state after the call.
\<close>

fun worker_run ::
  "Settings \<Rightarrow> remote_env list \<Rightarrow> worker_sel \<Rightarrow>
     (worker_sel \<times> bool \<times> string list \<times> worker_sel) list" where
  "worker_run c [] st = []"
| "worker_run c (e # es) st =
     (let (returned, posts, st1) = ensure_and_select_models (Some c) e st
      in (st, returned, posts, st1) # worker_run c es st1)"

subsection \<open>In the HTTP helper\<close>

text \<open>The module globals \<^verbatim>\<open>_http_client\<close> and \<^verbatim>\<open>_selected_sig\<close>.\<close>

record http_sel =
  http_client :: "GradioClient option"
  selected_sig :: "signature option"

datatype exn = Config_fetch_failed

text \<open>
  \<^verbatim>\<open>_ensure_client_and_models\<close>. An exception of \<^verbatim>\<open>ensure\<close> is not caught here and is
  the \<open>Inl\<close> result; a failing selection call returns \<^verbatim>\<open>False\<close> and leaves
  \<^verbatim>\<open>_selected_sig\<close> and the client as they are.
\<close>

definition ensure_client_and_models ::
  "Settings \<Rightarrow> remote_env \<Rightarrow> http_sel \<Rightarrow> (exn + bool) \<times> string list \<times> http_sel" where
  "ensure_client_and_models c env st =
     (let base = strip (gradio_server_url c) in
      if base = [] then (Inr False, [], st)
      else
        (let (cl, sel) =
               (case http_client st of
                  None \<Rightarrow> (new_client base, None)
                | Some c0 \<Rightarrow>
                    if rstrip_slash (base_url c0) \<noteq> rstrip_slash base
                    then (new_client base, None)
                    else (c0, selected_sig st));
             (ensured, cl1) = ensure env cl;
             sig = sig_of base c
         in if \<not> ensured then
              (Inl Config_fetch_failed, [], \<lparr>http_client = Some cl1, selected_sig = sel\<rparr>)
            else if sel \<noteq> Some sig then
              (let (returned, posts, cl2) = select_models env cl1 in
               if returned then
                 (Inr True, posts, \<lparr>http_client = Some cl2, selected_sig = Some sig\<rparr>)
               else (Inr False, posts, \<lparr>http_client = Some cl2, selected_sig = sel\<rparr>))
            else (Inr True, [], \<lparr>http_client = Some cl1, selected_sig = sel\<rparr>)))"

fun http_run ::
  "Settings \<Rightarrow> remote_env list \<Rightarrow> http_sel \<Rightarrow>
     (http_sel \<times> (exn + bool) \<times> string list \<times> http_sel) list" where
  "http_run c [] st = []"
| "http_run c (e # es) st =
     (let (res, posts, st1) = ensure_client_and_models c e st
      in (st, res, posts, st1) # http_run c es st1)"

text \<open>
  A trace is chained from a state when its first call starts in that state and every
  later call starts in the state the call before it left.
\<close>

fun chained :: "'s \<Rightarrow> ('s \<times> 'r \<times> string list \<times> 's) list \<Rightarrow> bool" where
  "chained st [] = True"
| "chained st ((pre, res, posts, post) # tr) = (pre = st \<and> chained post tr)"

text \<open>All selection requests of a trace, in the order they were sent.\<close>

definition issued :: "('s \<times> 'r \<times> string list \<times> 's) list \<Rightarrow> string list" where
  "issued tr = concat (map (\<lambda>(pre, res, posts, post). posts) tr)"

section \<open>The health probe\<close>

text \<open>
  The outcome of the \<^verbatim>\<open>GET\<close> of \<^verbatim>\<open>gradio_health\<close> on a session of its own: a response
  with status and body, or an exception (connection refused, timeout) with its text.
\<close>

datatype probe = Response int string | Raises string

text \<open>The three messages: not configured, \<^verbatim>\<open>HTTP <status>: <body[:120]>\<close>, \<^verbatim>\<open>str(e)\<close>.\<close>

datatype health_message = Not_configured | Http_status int string | Exception_text string

record health =
  ok :: bool
  ready :: bool
  url :: string
  message :: "health_message option"

text \<open>
  \<^verbatim>\<open>gradio_health\<close>. The handler of the probe's exception sets \<^verbatim>\<open>_selected_sig = None\<close>
  and closes \<^verbatim>\<open>_http_client\<close> (which drops its session and keeps the object).
\<close>

definition gradio_health :: "Settings \<Rightarrow> probe \<Rightarrow> http_sel \<Rightarrow> health \<times> http_sel" where
  "gradio_health c p st =
     (let base = strip (gradio_server_url c) in
      if base = [] then
        (\<lparr>ok = False, ready = False, url = base, message = Some Not_configured\<rparr>, st)
      else
        (case p of
           Response status body \<Rightarrow>
             if status \<noteq> 200 then
               (\<lparr>ok = False, ready = False, url = base,
                 message = Some (Http_status status (take 120 body))\<rparr>, st)
             else (\<lparr>ok = True, ready = True, url = base, message = None\<rparr>, st)
         | Raises e \<Rightarrow>
             (\<lparr>ok = False, ready = False, url = base, message = Some (Exception_text e)\<rparr>,
              st\<lparr>selected_sig := None,
                 http_client := map_option (\<lambda>cl. cl\<lparr>session := False\<rparr>) (http_client st)\<rparr>)))"

section \<open>Derived notions and example states\<close>

text \<open>
  The states in which the signature of the current settings is the cached one on a client
  for the current base URL, and the two selection requests in the order they are sent.
\<close>

definition http_selected :: "Settings \<Rightarrow> http_sel \<Rightarrow> bool" where
  "http_selected c st =
     (case http_client st of
        None \<Rightarrow> False
      | Some c0 \<Rightarrow>
          rstrip_slash (base_url c0) = rstrip_slash (strip (gradio_server_url c)) \<and>
          selected_sig st = Some (sig_of (strip (gradio_server_url c)) c))"

definition worker_selected :: "Settings \<Rightarrow> worker_sel \<Rightarrow> bool" where
  "worker_selected c st =
     (case w_client st of
        None \<Rightarrow> False
      | Some c0 \<Rightarrow>
          rstrip_slash (base_url c0) = rstrip_slash (strip (gradio_server_url c)) \<and>
          w_selected_sig st = Some (sig_of (strip (gradio_server_url c)) c))"

definition both_calls :: "string list" where
  "both_calls = [''/change_sovits_weights'', ''/change_gpt_weights'']"

text \<open>
  Example data: no replacement rules, settings with a queue capacity of one, a service whose
  predict queue is full, a service with one rendered task waiting for playback, and the
  cached selection left behind by a successful selection under these settings.
\<close>

definition no_rules :: "Settings \<Rightarrow> string \<Rightarrow> string" where
  "no_rules c t = t"

definition settings0 :: Settings where
  "settings0 =
     \<lparr>tts_enabled = True, max_tts_queue_size = 1,
      gradio_server_url = ''http://localhost:9872/'', sovits_model = ''s.pth'',
      gpt_model = ''g.ckpt'', text_lang = ''zh''\<rparr>"

definition busy_service :: "unit TTSService" where
  "busy_service =
     new_service\<lparr>cfg := Some settings0,
       predict_q := \<lparr>pq_max_size = PyInt 1, pq_high = [], pq_normal = [mk_task ''a'' NORMAL]\<rparr>,
       status_listener := True\<rparr>"

definition playing_service :: "unit TTSService" where
  "playing_service =
     new_service\<lparr>audio_q := \<lparr>aq_max_size = PyNone, aq_q = [((), mk_task ''a'' NORMAL)]\<rparr>,
       status_listener := True\<rparr>"

definition deps0 :: "dep list" where
  "deps0 =
     [(Some ''/inference'', Some 2), (Some ''/change_sovits_weights'', Some 5),
      (Some ''/change_gpt_weights'', None)]"

definition fn_map0 :: "(string \<times> int) list" where
  "fn_map0 = [(''change_gpt_weights'', 2), (''change_sovits_weights'', 5), (''inference'', 2)]"

text \<open>
  Three remote sides: one that serves the descriptor and answers both selection calls, one
  that is down, and one that answers the first selection call and fails the second; the
  client after a successful descriptor fetch, and the two caches before any selection.
\<close>

definition env_ok :: remote_env where
  "env_ok = \<lparr>config = Some deps0, sovits_ok = True, gpt_ok = True\<rparr>"

definition env_down :: remote_env where
  "env_down = \<lparr>config = None, sovits_ok = False, gpt_ok = False\<rparr>"

definition env_gpt_fails :: remote_env where
  "env_gpt_fails = \<lparr>config = Some deps0, sovits_ok = True, gpt_ok = False\<rparr>"

definition client0 :: GradioClient where
  "client0 = \<lparr>base_url = ''http://localhost:9872/'', session = True, fn_map = fn_map0\<rparr>"

definition no_selection :: http_sel where
  "no_selection = \<lparr>http_client = None, selected_sig = None\<rparr>"

definition no_worker_selection :: worker_sel where
  "no_worker_selection = \<lparr>w_client = None, w_selected_sig = None, gradio_ready = False\<rparr>"

definition cached_state :: http_sel where
  "cached_state =
     \<lparr>http_client =
        Some \<lparr>base_url = ''http://localhost:9872/'', session = True, fn_map = fn_map0\<rparr>,
      selected_sig = Some (''http://localhost:9872/'', ''s.pth'', ''g.ckpt'', ''zh'')\<rparr>"

definition cached_worker_state :: worker_sel where
  "cached_worker_state =
     \<lparr>w_client =
        Some \<lparr>base_url = ''http://localhost:9872/'', session = True, fn_map = fn_map0\<rparr>,
      w_selected_sig = Some (''http://localhost:9872/'', ''s.pth'', ''g.ckpt'', ''zh''),
      gradio_ready = True\<rparr>"

section \<open>Properties of the queues\<close>

subsection \<open>Capacity\<close>

lemma cap_of_pos: "cap_of m = Some c \<Longrightarrow> 0 < c"
  by (cases m) (auto split: if_splits)

lemma pq_push_bound:
  assumes "cap_of (pq_max_size q) = Some c" and "int (pq_size q) \<le> c"
    and "pq_push q t = (r, ev, q')"
  shows "int (pq_size q') \<le> c \<and> pq_max_size q' = pq_max_size q"
  using assms cap_of_pos[of "pq_max_size q" c]
  by (auto simp: pq_push_def pq_evict_def pq_enqueue_def pq_size_def
      split: if_splits list.splits)

lemma pq_pop_bound:
  assumes "pq_pop q = Some (t, q')"
  shows "pq_size q' < pq_size q \<and> pq_max_size q' = pq_max_size q"
  using assms by (auto simp: pq_pop_def pq_size_def split: list.splits)

lemma pq_exec_bound:
  "cap_of (pq_max_size q) = Some c \<Longrightarrow> int (pq_size q) \<le> c \<Longrightarrow>
   int (pq_size (snd (pq_exec q ops))) \<le> c"
proof (induction ops arbitrary: q)
  case Nil
  then show ?case by simp
next
  case (Cons x ops)
  show ?case
  proof (cases x)
    case (Push t)
    obtain r ev q1 where p: "pq_push q t = (r, ev, q1)" by (cases "pq_push q t") auto
    from pq_push_bound[OF Cons.prems p]
    have "int (pq_size (snd (pq_exec q1 ops))) \<le> c"
      using Cons.IH[of q1] Cons.prems(1) by simp
    then show ?thesis using Push p by (simp add: split_beta)
  next
    case Pop
    show ?thesis
    proof (cases "pq_pop q")
      case None
      then show ?thesis using Pop Cons by (simp add: split_beta)
    next
      case (Some a)
      then obtain t q1 where p: "pq_pop q = Some (t, q1)" by (cases a) auto
      from pq_pop_bound[OF p]
      have "int (pq_size q1) \<le> c" "cap_of (pq_max_size q1) = Some c"
        using Cons.prems by auto
      then have "int (pq_size (snd (pq_exec q1 ops))) \<le> c" using Cons.IH[of q1] by simp
      then show ?thesis using Pop p by (simp add: split_beta)
    qed
  qed
qed

lemma aq_push_bound:
  assumes "cap_of (aq_max_size a) = Some c" and "int (length (aq_q a)) \<le> c"
    and "aq_push a x = (ev, a')"
  shows "int (length (aq_q a')) \<le> c \<and> aq_max_size a' = aq_max_size a"
  using assms cap_of_pos[of "aq_max_size a" c]
  by (auto simp: aq_push_def split: if_splits list.splits)

lemma aq_pop_bound:
  assumes "aq_pop a = Some (x, a')"
  shows "length (aq_q a') < length (aq_q a) \<and> aq_max_size a' = aq_max_size a"
  using assms by (auto simp: aq_pop_def split: list.splits)

lemma aq_exec_bound:
  "cap_of (aq_max_size a) = Some c \<Longrightarrow> int (length (aq_q a)) \<le> c \<Longrightarrow>
   int (length (aq_q (snd (aq_exec a ops)))) \<le> c"
proof (induction ops arbitrary: a)
  case Nil
  then show ?case by simp
next
  case (Cons x ops)
  show ?case
  proof (cases x)
    case (Push t)
    obtain ev a1 where p: "aq_push a t = (ev, a1)" by (cases "aq_push a t") auto
    from aq_push_bound[OF Cons.prems p]
    have "int (length (aq_q (snd (aq_exec a1 ops)))) \<le> c"
      using Cons.IH[of a1] Cons.prems(1) by simp
    then show ?thesis using Push p by (simp add: split_beta)
  next
    case Pop
    show ?thesis
    proof (cases "aq_pop a")
      case None
      then show ?thesis using Pop Cons by (simp add: split_beta)
    next
      case (Some y)
      then obtain t a1 where p: "aq_pop a = Some (t, a1)" by (cases y) auto
      from aq_pop_bound[OF p]
      have "int (length (aq_q a1)) \<le> c" "cap_of (aq_max_size a1) = Some c"
        using Cons.prems by auto
      then have "int (length (aq_q (snd (aq_exec a1 ops)))) \<le> c"
        using Cons.IH[of a1] by simp
      then show ?thesis using Pop p by (simp add: split_beta)
    qed
  qed
qed

text \<open>
  Claim C3. With the capacity fixed at a positive integer \<open>C\<close>, a queue that holds at
  most \<open>C\<close> items (the empty queue, for one) holds at most \<open>C\<close> items after any
  sequence of pushes and pops. This holds of the predict queue, counting both deques
  together, and of the audio queue.
\<close>

theorem occupancy_never_exceeds_capacity:
  assumes "0 < C"
    and "pq_max_size q = PyInt C" and "int (pq_size q) \<le> C"
    and "aq_max_size a = PyInt C" and "int (length (aq_q a)) \<le> C"
  shows "int (pq_size (snd (pq_exec q ops))) \<le> C \<and>
         int (length (aq_q (snd (aq_exec a ops')))) \<le> C"
  using assms pq_exec_bound[of q C ops] aq_exec_bound[of a C ops'] by simp

theorem occupancy_never_exceeds_capacity_witness:
  "(0::int) < 2 \<and>
   pq_max_size (pq_empty (PyInt 2)) = PyInt 2 \<and> int (pq_size (pq_empty (PyInt 2))) \<le> 2 \<and>
   aq_max_size (aq_empty (PyInt 2) :: unit AudioQueue) = PyInt 2 \<and>
   int (length (aq_q (aq_empty (PyInt 2) :: unit AudioQueue))) \<le> 2 \<and>
   int (pq_size (snd (pq_exec (pq_empty (PyInt 2))
          [Push (mk_task ''a'' NORMAL), Push (mk_task ''b'' NORMAL),
           Push (mk_task ''c'' NORMAL), Push (mk_task ''d'' HIGH), Pop]))) \<le> 2 \<and>
   int (length (aq_q (snd (aq_exec (aq_empty (PyInt 2) :: unit AudioQueue)
          [Push ((), mk_task ''a'' NORMAL), Push ((), mk_task ''b'' NORMAL),
           Push ((), mk_task ''c'' NORMAL)])))) \<le> 2"
  using occupancy_never_exceeds_capacity[of 2 "pq_empty (PyInt 2)"
      "aq_empty (PyInt 2) :: unit AudioQueue"
      "[Push (mk_task ''a'' NORMAL), Push (mk_task ''b'' NORMAL),
        Push (mk_task ''c'' NORMAL), Push (mk_task ''d'' HIGH), Pop]"
      "[Push ((), mk_task ''a'' NORMAL), Push ((), mk_task ''b'' NORMAL),
        Push ((), mk_task ''c'' NORMAL)]"]
  by (simp add: pq_empty_def aq_empty_def pq_size_def)

text \<open>
  Claim C6. A NORMAL task pushed onto a full predict queue (a capacity is in force and
  the two deques together hold at least that many tasks) is refused: \<^verbatim>\<open>push\<close> returns
  \<^verbatim>\<open>False\<close>, nothing is evicted, and the queue, both deques and their order, is
  unchanged.
\<close>

theorem normal_push_on_full_queue_is_rejected:
  assumes "cap_of (pq_max_size q) = Some c" and "c \<le> int (pq_size q)"
    and "priority t = NORMAL"
  shows "pq_push q t = (False, None, q)"
  using assms by (simp add: pq_push_def)

theorem normal_push_on_full_queue_is_rejected_witness:
  "cap_of (pq_max_size \<lparr>pq_max_size = PyInt 1, pq_high = [],
                         pq_normal = [mk_task ''a'' NORMAL]\<rparr>) = Some 1 \<and>
   1 \<le> int (pq_size \<lparr>pq_max_size = PyInt 1, pq_high = [],
                       pq_normal = [mk_task ''a'' NORMAL]\<rparr>) \<and>
   priority (mk_task ''b'' NORMAL) = NORMAL \<and>
   pq_push \<lparr>pq_max_size = PyInt 1, pq_high = [], pq_normal = [mk_task ''a'' NORMAL]\<rparr>
     (mk_task ''b'' NORMAL) =
   (False, None, \<lparr>pq_max_size = PyInt 1, pq_high = [], pq_normal = [mk_task ''a'' NORMAL]\<rparr>)"
  using normal_push_on_full_queue_is_rejected[of
      "\<lparr>pq_max_size = PyInt 1, pq_high = [], pq_normal = [mk_task ''a'' NORMAL]\<rparr>" 1
      "mk_task ''b'' NORMAL"]
  by (simp add: pq_size_def mk_task_def)

text \<open>
  Claim C10. When the capacity field is \<^verbatim>\<open>None\<close>, zero, negative or not an instance of
  \<^verbatim>\<open>int\<close> (\<^verbatim>\<open>False\<close>, the \<^verbatim>\<open>int\<close> instance that compares as 0, included), both
  queues are unbounded: in every state, for every task, \<^verbatim>\<open>push\<close> appends the task
  (on the predict queue, to the end of the deque of its priority), leaves everything else
  in place, evicts nothing and, on the predict queue, returns \<^verbatim>\<open>True\<close>.
\<close>

theorem unbounded_capacity_admits_every_push:
  assumes "m = PyNone \<or> m = PyOther \<or> m = PyBool False \<or> (\<exists>n. m = PyInt n \<and> n \<le> 0)"
    and "pq_max_size q = m" and "aq_max_size a = m"
  shows "pq_push q t =
           (True, None,
            if priority t = HIGH then q\<lparr>pq_high := pq_high q @ [t]\<rparr>
            else q\<lparr>pq_normal := pq_normal q @ [t]\<rparr>) \<and>
         aq_push a x = (None, a\<lparr>aq_q := aq_q a @ [x]\<rparr>)"
  using assms by (auto simp: pq_push_def aq_push_def pq_enqueue_def)


theorem unbounded_capacity_admits_every_push_witness:
  "pq_max_size \<lparr>pq_max_size = PyInt (- 3), pq_high = [mk_task ''a'' HIGH],
                 pq_normal = [mk_task ''b'' NORMAL]\<rparr> = PyInt (- 3) \<and>
   aq_max_size \<lparr>aq_max_size = PyInt (- 3), aq_q = [((), mk_task ''a'' HIGH)]\<rparr> = PyInt (- 3) \<and>
   pq_push \<lparr>pq_max_size = PyInt (- 3), pq_high = [mk_task ''a'' HIGH],
             pq_normal = [mk_task ''b'' NORMAL]\<rparr> (mk_task ''c'' NORMAL) =
     (True, None,
      \<lparr>pq_max_size = PyInt (- 3), pq_high = [mk_task ''a'' HIGH],
        pq_normal = [mk_task ''b'' NORMAL, mk_task ''c'' NORMAL]\<rparr>) \<and>
   aq_push \<lparr>aq_max_size = PyInt (- 3), aq_q = [((), mk_task ''a'' HIGH)]\<rparr>
     ((), mk_task ''c'' NORMAL) =
     (None, \<lparr>aq_max_size = PyInt (- 3),
             aq_q = [((), mk_task ''a'' HIGH), ((), mk_task ''c'' NORMAL)]\<rparr>)"
  using unbounded_capacity_admits_every_push[of "PyInt (- 3)"
      "\<lparr>pq_max_size = PyInt (- 3), pq_high = [mk_task ''a'' HIGH],
        pq_normal = [mk_task ''b'' NORMAL]\<rparr>"
      "\<lparr>aq_max_size = PyInt (- 3), aq_q = [((), mk_task ''a'' HIGH)]\<rparr>"
      "mk_task ''c'' NORMAL" "((), mk_task ''c'' NORMAL)"]
  by (simp add: pq_enqueue_def mk_task_def)

subsection \<open>Order of service\<close>

lemma pq_drain_eq: "pq_drain q = pq_high q @ pq_normal q"
proof (induction q rule: pq_drain.induct)
  case (1 q)
  show ?case
  proof (cases "pq_pop q")
    case None
    then have "pq_high q @ pq_normal q = []"
      by (auto simp: pq_pop_def split: list.splits)
    then show ?thesis using None by (subst pq_drain.simps) simp
  next
    case (Some a)
    then obtain t q1 where p: "pq_pop q = Some (t, q1)" by (cases a) auto
    have "pq_drain q1 = pq_high q1 @ pq_normal q1" using 1 p by simp
    moreover have "t # pq_high q1 @ pq_normal q1 = pq_high q @ pq_normal q"
      using p by (auto simp: pq_pop_def split: list.splits)
    ultimately show ?thesis using p by (subst pq_drain.simps) simp
  qed
qed

lemma pq_wf_push: "pq_wf q \<Longrightarrow> pq_push q t = (r, ev, q') \<Longrightarrow> pq_wf q'"
  by (cases "priority t")
     (auto simp: pq_wf_def pq_push_def pq_evict_def pq_enqueue_def
           split: option.splits if_splits list.splits)

lemma pq_wf_pop: "pq_wf q \<Longrightarrow> pq_pop q = Some (t, q') \<Longrightarrow> pq_wf q'"
  by (auto simp: pq_wf_def pq_pop_def split: list.splits)

lemma pq_wf_exec: "pq_wf q \<Longrightarrow> pq_wf (snd (pq_exec q ops))"
proof (induction ops arbitrary: q)
  case Nil
  then show ?case by simp
next
  case (Cons x ops)
  show ?case
  proof (cases x)
    case (Push t)
    obtain r ev q1 where p: "pq_push q t = (r, ev, q1)" by (cases "pq_push q t") auto
    have "pq_wf q1" using pq_wf_push[OF Cons.prems p] .
    then have "pq_wf (snd (pq_exec q1 ops))" by (rule Cons.IH)
    then show ?thesis using Push p by (simp add: split_beta)
  next
    case Pop
    show ?thesis
    proof (cases "pq_pop q")
      case None
      then show ?thesis using Pop Cons by (simp add: split_beta)
    next
      case (Some a)
      then obtain t q1 where p: "pq_pop q = Some (t, q1)" by (cases a) auto
      have "pq_wf q1" using pq_wf_pop[OF Cons.prems p] .
      then have "pq_wf (snd (pq_exec q1 ops))" by (rule Cons.IH)
      then show ?thesis using Pop p by (simp add: split_beta)
    qed
  qed
qed

lemma pq_wf_empty: "pq_wf (pq_empty m)"
  by (simp add: pq_wf_def pq_empty_def)

lemma of_priority_append [simp]:
  "of_priority p (xs @ ys) = of_priority p xs @ of_priority p ys"
  by (simp add: of_priority_def)

lemma of_priority_Nil [simp]: "of_priority p [] = []"
  by (simp add: of_priority_def)

lemma pq_push_fifo:
  assumes "pq_wf q" and "pq_push q t = (adm, ev, q1)"
  shows "pq_high q @ of_priority HIGH (entered (Push t) (Pushed adm ev)) =
           of_priority HIGH (departed (Pushed adm ev)) @ pq_high q1 \<and>
         pq_normal q @ of_priority NORMAL (entered (Push t) (Pushed adm ev)) =
           of_priority NORMAL (departed (Pushed adm ev)) @ pq_normal q1"
  using assms
  by (cases "priority t")
     (auto simp: pq_wf_def pq_push_def pq_evict_def pq_enqueue_def of_priority_def
           split: option.splits if_splits list.splits)

lemma pq_pop_fifo:
  assumes "pq_wf q" and "pq_pop q = Some (t, q1)"
  shows "pq_high q = of_priority HIGH [t] @ pq_high q1 \<and>
         pq_normal q = of_priority NORMAL [t] @ pq_normal q1"
  using assms
  by (auto simp: pq_wf_def pq_pop_def of_priority_def split: list.splits)

lemma pq_exec_fifo:
  assumes "pq_wf q" and "pq_exec q ops = (os, q')"
  shows "pq_high q @ of_priority HIGH (admitted ops os) =
           of_priority HIGH (removed os) @ pq_high q' \<and>
         pq_normal q @ of_priority NORMAL (admitted ops os) =
           of_priority NORMAL (removed os) @ pq_normal q'"
  using assms
proof (induction ops arbitrary: q os)
  case Nil
  then show ?case by (simp add: admitted_def removed_def)
next
  case (Cons x ops)
  show ?case
  proof (cases x)
    case (Push t)
    obtain adm ev q1 where p: "pq_push q t = (adm, ev, q1)" by (cases "pq_push q t") auto
    obtain os1 q2 where e0: "pq_exec q1 ops = (os1, q2)" by (cases "pq_exec q1 ops") auto
    have e: "pq_exec q1 ops = (os1, q')" and os: "os = Pushed adm ev # os1"
      using Cons.prems(2) Push p e0 by auto
    have wf1: "pq_wf q1" using pq_wf_push[OF Cons.prems(1) p] .
    note ih = Cons.IH[OF wf1 e]
    note st = pq_push_fifo[OF Cons.prems(1) p]
    have "pq_high q @ of_priority HIGH (admitted (x # ops) os) =
          (pq_high q @ of_priority HIGH (entered (Push t) (Pushed adm ev))) @
            of_priority HIGH (admitted ops os1)"
      using Push os by (simp add: admitted_def)
    also have "\<dots> = of_priority HIGH (departed (Pushed adm ev)) @
            (pq_high q1 @ of_priority HIGH (admitted ops os1))"
      using st by simp
    also have "\<dots> = of_priority HIGH (removed os) @ pq_high q'"
      using ih os by (simp add: removed_def)
    finally have hi: "pq_high q @ of_priority HIGH (admitted (x # ops) os) =
          of_priority HIGH (removed os) @ pq_high q'" .
    have "pq_normal q @ of_priority NORMAL (admitted (x # ops) os) =
          (pq_normal q @ of_priority NORMAL (entered (Push t) (Pushed adm ev))) @
            of_priority NORMAL (admitted ops os1)"
      using Push os by (simp add: admitted_def)
    also have "\<dots> = of_priority NORMAL (departed (Pushed adm ev)) @
            (pq_normal q1 @ of_priority NORMAL (admitted ops os1))"
      using st by simp
    also have "\<dots> = of_priority NORMAL (removed os) @ pq_normal q'"
      using ih os by (simp add: removed_def)
    finally show ?thesis using hi by simp
  next
    case Pop
    show ?thesis
    proof (cases "pq_pop q")
      case None
      obtain os1 q2 where e0: "pq_exec q ops = (os1, q2)" by (cases "pq_exec q ops") auto
      have e: "pq_exec q ops = (os1, q')" and os: "os = Popped None # os1"
        using Cons.prems(2) Pop None e0 by auto
      from Cons.IH[OF Cons.prems(1) e] show ?thesis
        using Pop os by (simp add: admitted_def removed_def)
    next
      case (Some a)
      then obtain t q1 where p: "pq_pop q = Some (t, q1)" by (cases a) auto
      obtain os1 q2 where e0: "pq_exec q1 ops = (os1, q2)" by (cases "pq_exec q1 ops") auto
      have e: "pq_exec q1 ops = (os1, q')" and os: "os = Popped (Some t) # os1"
        using Cons.prems(2) Pop p e0 by auto
      have wf1: "pq_wf q1" using pq_wf_pop[OF Cons.prems(1) p] .
      note ih = Cons.IH[OF wf1 e]
      note st = pq_pop_fifo[OF Cons.prems(1) p]
      have "pq_high q @ of_priority HIGH (admitted (x # ops) os) =
            of_priority HIGH [t] @ (pq_high q1 @ of_priority HIGH (admitted ops os1))"
        using Pop os st by (simp add: admitted_def)
      also have "\<dots> = of_priority HIGH (removed os) @ pq_high q'"
        using ih os by (simp add: removed_def of_priority_def)
      finally have hi: "pq_high q @ of_priority HIGH (admitted (x # ops) os) =
            of_priority HIGH (removed os) @ pq_high q'" .
      have "pq_normal q @ of_priority NORMAL (admitted (x # ops) os) =
            of_priority NORMAL [t] @ (pq_normal q1 @ of_priority NORMAL (admitted ops os1))"
        using Pop os st by (simp add: admitted_def)
      also have "\<dots> = of_priority NORMAL (removed os) @ pq_normal q'"
        using ih os by (simp add: removed_def of_priority_def)
      finally show ?thesis using hi by simp
    qed
  qed
qed

lemma pq_exec_wf_fifo:
  assumes "pq_wf q0" and "pq_exec q0 ops = (os, q)"
  shows "pq_wf q \<and>
         pq_high q0 @ of_priority HIGH (admitted ops os) =
           of_priority HIGH (removed os) @ pq_high q \<and>
         pq_normal q0 @ of_priority NORMAL (admitted ops os) =
           of_priority NORMAL (removed os) @ pq_normal q"
  using pq_wf_exec[OF assms(1), of ops] pq_exec_fifo[OF assms] assms(2) by simp

text \<open>
  Claim C5. Run any sequence of pushes and pops on the empty predict queue. The HIGH
  tasks admitted so far are, in the order of their admission, the HIGH tasks that have
  left the queue followed by the HIGH deque, and likewise for NORMAL; so each deque holds
  the admitted tasks of its priority that remain, oldest first. Popping until the queue is
  empty returns the remaining HIGH tasks in the order of their admission and then the
  remaining NORMAL tasks in theirs; and while a HIGH task is queued, \<^verbatim>\<open>pop\<close> returns
  the oldest HIGH task and leaves the NORMAL deque alone, whenever the NORMAL tasks were
  pushed.
\<close>

theorem pop_returns_high_before_normal:
  assumes "pq_exec (pq_empty m) ops = (os, q)"
  shows "of_priority HIGH (admitted ops os) = of_priority HIGH (removed os) @ pq_high q \<and>
         of_priority NORMAL (admitted ops os) = of_priority NORMAL (removed os) @ pq_normal q \<and>
         pq_drain q =
           drop (length (of_priority HIGH (removed os))) (of_priority HIGH (admitted ops os)) @
           drop (length (of_priority NORMAL (removed os)))
             (of_priority NORMAL (admitted ops os)) \<and>
         pq_drain q = pq_high q @ pq_normal q \<and>
         (\<forall>t \<in> set (pq_high q). priority t = HIGH) \<and>
         (\<forall>t \<in> set (pq_normal q). priority t = NORMAL) \<and>
         (\<forall>h hs. pq_high q = h # hs \<longrightarrow> pq_pop q = Some (h, q\<lparr>pq_high := hs\<rparr>))"
proof -
  from pq_exec_wf_fifo[OF pq_wf_empty assms]
  have wf: "pq_wf q"
    and hi: "of_priority HIGH (admitted ops os) = of_priority HIGH (removed os) @ pq_high q"
    and no: "of_priority NORMAL (admitted ops os) = of_priority NORMAL (removed os) @ pq_normal q"
    by (simp_all add: pq_empty_def)
  have dr: "pq_drain q = pq_high q @ pq_normal q" by (rule pq_drain_eq)
  have d: "pq_drain q =
      drop (length (of_priority HIGH (removed os))) (of_priority HIGH (admitted ops os)) @
      drop (length (of_priority NORMAL (removed os))) (of_priority NORMAL (admitted ops os))"
    by (simp add: pq_drain_eq hi no)
  have p: "(\<forall>t \<in> set (pq_high q). priority t = HIGH) \<and>
           (\<forall>t \<in> set (pq_normal q). priority t = NORMAL) \<and>
           (\<forall>h hs. pq_high q = h # hs \<longrightarrow> pq_pop q = Some (h, q\<lparr>pq_high := hs\<rparr>))"
    using wf by (simp add: pq_wf_def pq_pop_def)
  show ?thesis using hi no d dr p by blast
qed

theorem pop_returns_high_before_normal_witness:
  "pq_exec (pq_empty (PyInt 3))
      [Push (mk_task ''n'' NORMAL), Push (mk_task ''h'' HIGH), Push (mk_task ''g'' HIGH),
       Push (mk_task ''m'' NORMAL), Pop] =
     ([Pushed True None, Pushed True None, Pushed True None, Pushed False None,
       Popped (Some (mk_task ''h'' HIGH))],
      \<lparr>pq_max_size = PyInt 3, pq_high = [mk_task ''g'' HIGH],
        pq_normal = [mk_task ''n'' NORMAL]\<rparr>) \<and>
   pq_drain \<lparr>pq_max_size = PyInt 3, pq_high = [mk_task ''g'' HIGH],
              pq_normal = [mk_task ''n'' NORMAL]\<rparr> =
     [mk_task ''g'' HIGH, mk_task ''n'' NORMAL] \<and>
   pq_pop \<lparr>pq_max_size = PyInt 3, pq_high = [mk_task ''g'' HIGH],
            pq_normal = [mk_task ''n'' NORMAL]\<rparr> =
     Some (mk_task ''g'' HIGH,
           \<lparr>pq_max_size = PyInt 3, pq_high = [], pq_normal = [mk_task ''n'' NORMAL]\<rparr>)"
proof -
  have e: "pq_exec (pq_empty (PyInt 3))
      [Push (mk_task ''n'' NORMAL), Push (mk_task ''h'' HIGH), Push (mk_task ''g'' HIGH),
       Push (mk_task ''m'' NORMAL), Pop] =
     ([Pushed True None, Pushed True None, Pushed True None, Pushed False None,
       Popped (Some (mk_task ''h'' HIGH))],
      \<lparr>pq_max_size = PyInt 3, pq_high = [mk_task ''g'' HIGH],
        pq_normal = [mk_task ''n'' NORMAL]\<rparr>)"
    by (simp add: pq_empty_def mk_task_def pq_push_def pq_enqueue_def pq_size_def pq_pop_def)
  from pop_returns_high_before_normal[OF e] e
  show ?thesis by simp
qed

subsection \<open>Eviction\<close>

lemma pq_push_full_high:
  assumes "cap_of (pq_max_size q) = Some c" and "c \<le> int (pq_size q)"
    and "priority t = HIGH"
  shows "pq_normal q @ pq_high q \<noteq> [] \<and>
         pq_push q t =
           (True, Some (hd (pq_normal q @ pq_high q)),
            if pq_normal q \<noteq> []
            then q\<lparr>pq_normal := tl (pq_normal q), pq_high := pq_high q @ [t]\<rparr>
            else q\<lparr>pq_high := tl (pq_high q) @ [t]\<rparr>)"
  using assms cap_of_pos[of "pq_max_size q" c]
  by (auto simp: pq_push_def pq_evict_def pq_enqueue_def pq_size_def split: list.splits)

text \<open>
  Claim C4. Run any sequence of pushes and pops on a predict queue whose deques hold
  tasks of their own priority, and let the queue be full afterwards. Each deque holds the
  admitted tasks of its priority that remain, in the order of their admission, so its head
  is the oldest of them. A HIGH task pushed now evicts exactly one task, the head of the
  NORMAL deque if that deque is not empty and the head of the HIGH deque otherwise, and is
  then appended to the HIGH deque; \<^verbatim>\<open>push\<close> returns \<^verbatim>\<open>True\<close>. The evicted task is the
  one handed to the eviction callback, which emits \<^verbatim>\<open>cancelled\<close> with the room and key
  of that task.
\<close>

theorem high_push_on_full_queue_evicts_oldest:
  assumes "pq_wf q0" and "pq_exec q0 ops = (os, q)"
    and "cap_of (pq_max_size q) = Some c" and "c \<le> int (pq_size q)"
    and "priority t = HIGH"
  shows "pq_normal q0 @ of_priority NORMAL (admitted ops os) =
           of_priority NORMAL (removed os) @ pq_normal q \<and>
         pq_high q0 @ of_priority HIGH (admitted ops os) =
           of_priority HIGH (removed os) @ pq_high q \<and>
         pq_normal q @ pq_high q \<noteq> [] \<and>
         pq_push q t =
           (True, Some (hd (pq_normal q @ pq_high q)),
            if pq_normal q \<noteq> []
            then q\<lparr>pq_normal := tl (pq_normal q), pq_high := pq_high q @ [t]\<rparr>
            else q\<lparr>pq_high := tl (pq_high q) @ [t]\<rparr>) \<and>
         emitted (on_evict (fst (snd (pq_push q t))) (s :: 'a TTSService)) =
           emitted s @
             [(room_id (hd (pq_normal q @ pq_high q)), key (hd (pq_normal q @ pq_high q)),
               ''cancelled'')]"
proof -
  note fifo = pq_exec_wf_fifo[OF assms(1,2)]
  note push = pq_push_full_high[OF assms(3,4,5)]
  have "emitted (on_evict (fst (snd (pq_push q t))) s) =
          emitted s @
            [(room_id (hd (pq_normal q @ pq_high q)), key (hd (pq_normal q @ pq_high q)),
              ''cancelled'')]"
    using push by (simp add: on_evict_def emit_status_def)
  then show ?thesis using fifo push by simp
qed

theorem high_push_on_full_queue_evicts_oldest_witness:
  "pq_exec (pq_empty (PyInt 3))
     [Push (mk_task ''n1'' NORMAL), Push (mk_task ''h1'' HIGH), Push (mk_task ''n2'' NORMAL)] =
     ([Pushed True None, Pushed True None, Pushed True None],
      \<lparr>pq_max_size = PyInt 3, pq_high = [mk_task ''h1'' HIGH],
        pq_normal = [mk_task ''n1'' NORMAL, mk_task ''n2'' NORMAL]\<rparr>) \<and>
   pq_push \<lparr>pq_max_size = PyInt 3, pq_high = [mk_task ''h1'' HIGH],
             pq_normal = [mk_task ''n1'' NORMAL, mk_task ''n2'' NORMAL]\<rparr>
     (mk_task ''h2'' HIGH) =
     (True, Some (mk_task ''n1'' NORMAL),
      \<lparr>pq_max_size = PyInt 3, pq_high = [mk_task ''h1'' HIGH, mk_task ''h2'' HIGH],
        pq_normal = [mk_task ''n2'' NORMAL]\<rparr>) \<and>
   emitted (on_evict (fst (snd (pq_push
       \<lparr>pq_max_size = PyInt 3, pq_high = [mk_task ''h1'' HIGH],
         pq_normal = [mk_task ''n1'' NORMAL, mk_task ''n2'' NORMAL]\<rparr>
       (mk_task ''h2'' HIGH)))) (new_service :: unit TTSService)) =
     [(Some 1, Some ''n1'', ''cancelled'')] \<and>
   pq_exec (pq_empty (PyInt 2)) [Push (mk_task ''h1'' HIGH), Push (mk_task ''h2'' HIGH)] =
     ([Pushed True None, Pushed True None],
      \<lparr>pq_max_size = PyInt 2, pq_high = [mk_task ''h1'' HIGH, mk_task ''h2'' HIGH],
        pq_normal = []\<rparr>) \<and>
   pq_push \<lparr>pq_max_size = PyInt 2, pq_high = [mk_task ''h1'' HIGH, mk_task ''h2'' HIGH],
             pq_normal = []\<rparr>
     (mk_task ''h3'' HIGH) =
     (True, Some (mk_task ''h1'' HIGH),
      \<lparr>pq_max_size = PyInt 2, pq_high = [mk_task ''h2'' HIGH, mk_task ''h3'' HIGH],
        pq_normal = []\<rparr>)"
proof -
  have e1: "pq_exec (pq_empty (PyInt 3))
     [Push (mk_task ''n1'' NORMAL), Push (mk_task ''h1'' HIGH), Push (mk_task ''n2'' NORMAL)] =
     ([Pushed True None, Pushed True None, Pushed True None],
      \<lparr>pq_max_size = PyInt 3, pq_high = [mk_task ''h1'' HIGH],
        pq_normal = [mk_task ''n1'' NORMAL, mk_task ''n2'' NORMAL]\<rparr>)"
    by (simp add: pq_empty_def mk_task_def pq_push_def pq_enqueue_def pq_size_def)
  have e2: "pq_exec (pq_empty (PyInt 2)) [Push (mk_task ''h1'' HIGH), Push (mk_task ''h2'' HIGH)] =
     ([Pushed True None, Pushed True None],
      \<lparr>pq_max_size = PyInt 2, pq_high = [mk_task ''h1'' HIGH, mk_task ''h2'' HIGH],
        pq_normal = []\<rparr>)"
    by (simp add: pq_empty_def mk_task_def pq_push_def pq_enqueue_def pq_size_def)
  from high_push_on_full_queue_evicts_oldest[OF pq_wf_empty e1, of 3 "mk_task ''h2'' HIGH"
      "new_service :: unit TTSService"]
    high_push_on_full_queue_evicts_oldest[OF pq_wf_empty e2, of 2 "mk_task ''h3'' HIGH"
      "new_service :: unit TTSService"]
    e1 e2
  show ?thesis by (auto simp: pq_size_def mk_task_def new_service_def)
qed

subsection \<open>The audio queue against the predict queue\<close>

lemma exec_high_only:
  assumes "\<forall>x. Push x \<in> set ops \<longrightarrow> priority (snd x) = HIGH"
    and "pq_normal q = []" and "pq_high q = map snd (aq_q a)"
    and "pq_max_size q = aq_max_size a"
  shows "fst (pq_exec q (map task_op ops)) = fst (aq_exec a ops) \<and>
         pq_normal (snd (pq_exec q (map task_op ops))) = [] \<and>
         pq_high (snd (pq_exec q (map task_op ops))) = map snd (aq_q (snd (aq_exec a ops)))"
  using assms
proof (induction ops arbitrary: q a)
  case Nil
  then show ?case by simp
next
  case (Cons x ops)
  have rest: "\<forall>y. Push y \<in> set ops \<longrightarrow> priority (snd y) = HIGH" using Cons.prems(1) by auto
  show ?case
  proof (cases x)
    case (Push item)
    then have "Push item \<in> set (x # ops)" by simp
    then have hi: "priority (snd item) = HIGH" using Cons.prems(1) by blast
    obtain r ev q1 where p: "pq_push q (snd item) = (r, ev, q1)"
      by (cases "pq_push q (snd item)") auto
    obtain ev' a1 where p': "aq_push a item = (ev', a1)" by (cases "aq_push a item") auto
    have step: "r \<and> ev = ev' \<and> pq_normal q1 = [] \<and> pq_high q1 = map snd (aq_q a1) \<and>
                pq_max_size q1 = aq_max_size a1"
      using p p' hi Cons.prems(2,3,4)
      by (auto simp: pq_push_def aq_push_def pq_evict_def pq_enqueue_def pq_size_def
               split: option.splits if_splits list.splits)
    from Cons.IH[OF rest, of q1 a1] step
    have "fst (pq_exec q1 (map task_op ops)) = fst (aq_exec a1 ops) \<and>
          pq_normal (snd (pq_exec q1 (map task_op ops))) = [] \<and>
          pq_high (snd (pq_exec q1 (map task_op ops))) = map snd (aq_q (snd (aq_exec a1 ops)))"
      by simp
    then show ?thesis using Push p p' step by (simp add: split_beta)
  next
    case Pop
    show ?thesis
    proof (cases "aq_q a")
      case Nil
      then have "pq_pop q = None" "aq_pop a = None"
        using Cons.prems(2,3) by (auto simp: pq_pop_def aq_pop_def)
      then show ?thesis using Pop Cons.IH[OF rest Cons.prems(2,3,4)] by (simp add: split_beta)
    next
      case (Cons y ys)
      define q1 where "q1 = q\<lparr>pq_high := map snd ys\<rparr>"
      define a1 where "a1 = a\<lparr>aq_q := ys\<rparr>"
      have pp: "pq_pop q = Some (snd y, q1)" "aq_pop a = Some (y, a1)"
        using Cons Cons.prems(2,3) by (auto simp: pq_pop_def aq_pop_def q1_def a1_def)
      have "pq_normal q1 = []" "pq_high q1 = map snd (aq_q a1)" "pq_max_size q1 = aq_max_size a1"
        using Cons.prems(2,4) by (auto simp: q1_def a1_def)
      from Cons.IH[OF rest this]
      show ?thesis using Pop pp by (simp add: split_beta)
    qed
  qed
qed

lemma aq_push_cases:
  "aq_push b x =
     (if \<exists>c. cap_of (aq_max_size b) = Some c \<and> c \<le> int (length (aq_q b))
      then (Some (snd (hd (aq_q b))), b\<lparr>aq_q := tl (aq_q b) @ [x]\<rparr>)
      else (None, b\<lparr>aq_q := aq_q b @ [x]\<rparr>)) \<and>
   ((\<exists>c. cap_of (aq_max_size b) = Some c \<and> c \<le> int (length (aq_q b))) \<longrightarrow> aq_q b \<noteq> [])"
proof (cases "cap_of (aq_max_size b)")
  case None
  then show ?thesis by (simp add: aq_push_def)
next
  case (Some c)
  then have "0 < c" by (rule cap_of_pos)
  then show ?thesis using Some by (auto simp: aq_push_def split: list.splits)
qed

lemma aq_push_fifo:
  assumes "aq_push a x = (ev, a1)"
  shows "map snd (aq_q a) @ [snd x] = departed (Pushed True ev) @ map snd (aq_q a1)"
  using assms
  by (auto simp: aq_push_def split: option.splits if_splits list.splits)

lemma aq_pop_fifo:
  assumes "aq_pop a = Some (x, a1)"
  shows "aq_q a = x # aq_q a1"
  using assms by (auto simp: aq_pop_def split: list.splits)

lemma aq_exec_fifo:
  assumes "aq_exec a ops = (os, a')"
  shows "map snd (aq_q a) @ map snd (pushed ops) = removed os @ map snd (aq_q a')"
  using assms
proof (induction ops arbitrary: a os)
  case Nil
  then show ?case by (simp add: removed_def)
next
  case (Cons o1 ops)
  show ?case
  proof (cases o1)
    case (Push x)
    obtain ev a1 where p: "aq_push a x = (ev, a1)" by (cases "aq_push a x") auto
    obtain os1 a2 where e0: "aq_exec a1 ops = (os1, a2)" by (cases "aq_exec a1 ops") auto
    have e: "aq_exec a1 ops = (os1, a')" and os: "os = Pushed True ev # os1"
      using Cons.prems Push p e0 by auto
    have "map snd (aq_q a) @ map snd (pushed (o1 # ops)) =
          (map snd (aq_q a) @ [snd x]) @ map snd (pushed ops)"
      using Push by simp
    also have "\<dots> = departed (Pushed True ev) @ (map snd (aq_q a1) @ map snd (pushed ops))"
      using aq_push_fifo[OF p] by simp
    also have "\<dots> = removed os @ map snd (aq_q a')"
      using Cons.IH[OF e] os by (simp add: removed_def)
    finally show ?thesis .
  next
    case Pop
    show ?thesis
    proof (cases "aq_pop a")
      case None
      obtain os1 a2 where e0: "aq_exec a ops = (os1, a2)" by (cases "aq_exec a ops") auto
      have e: "aq_exec a ops = (os1, a')" and os: "os = Popped None # os1"
        using Cons.prems Pop None e0 by auto
      from Cons.IH[OF e] show ?thesis using Pop os by (simp add: removed_def)
    next
      case (Some y)
      then obtain x a1 where p: "aq_pop a = Some (x, a1)" by (cases y) auto
      obtain os1 a2 where e0: "aq_exec a1 ops = (os1, a2)" by (cases "aq_exec a1 ops") auto
      have e: "aq_exec a1 ops = (os1, a')" and os: "os = Popped (Some (snd x)) # os1"
        using Cons.prems Pop p e0 by auto
      from Cons.IH[OF e] aq_pop_fifo[OF p] show ?thesis
        using Pop os by (simp add: removed_def)
    qed
  qed
qed

lemma aq_exec_all_admitted:
  "aq_exec a ops = (os, a') \<Longrightarrow> admitted (map task_op ops) os = map snd (pushed ops)"
proof (induction ops arbitrary: a os)
  case Nil
  then show ?case by (simp add: admitted_def)
next
  case (Cons o1 ops)
  show ?case
  proof (cases o1)
    case (Push x)
    obtain ev a1 where p: "aq_push a x = (ev, a1)" by (cases "aq_push a x") auto
    obtain os1 a2 where e0: "aq_exec a1 ops = (os1, a2)" by (cases "aq_exec a1 ops") auto
    have e: "aq_exec a1 ops = (os1, a')" and os: "os = Pushed True ev # os1"
      using Cons.prems Push p e0 by auto
    from Cons.IH[OF e] show ?thesis using Push os by (simp add: admitted_def)
  next
    case Pop
    show ?thesis
    proof (cases "aq_pop a")
      case None
      obtain os1 a2 where e0: "aq_exec a ops = (os1, a2)" by (cases "aq_exec a ops") auto
      have e: "aq_exec a ops = (os1, a')" and os: "os = Popped None # os1"
        using Cons.prems Pop None e0 by auto
      from Cons.IH[OF e] show ?thesis using Pop os by (simp add: admitted_def)
    next
      case (Some y)
      then obtain x a1 where p: "aq_pop a = Some (x, a1)" by (cases y) auto
      obtain os1 a2 where e0: "aq_exec a1 ops = (os1, a2)" by (cases "aq_exec a1 ops") auto
      have e: "aq_exec a1 ops = (os1, a')" and os: "os = Popped (Some (snd x)) # os1"
        using Cons.prems Pop p e0 by auto
      from Cons.IH[OF e] show ?thesis using Pop os by (simp add: admitted_def)
    qed
  qed
qed

text \<open>
  Claim C2, as the code has it. The audio queue is one FIFO deque without priority
  levels. Run from the empty queue, every push is admitted, and the tasks pushed are, in
  the order of their arrival, the tasks that have left the queue (evicted or popped)
  followed by the tasks still queued. In any state, on a full queue \<^verbatim>\<open>push\<close> evicts
  the head, whatever its priority and that of the new item, and appends the new item;
  otherwise it appends and evicts nothing; \<^verbatim>\<open>pop\<close> returns the head. When all pushed
  tasks are HIGH, the predict queue started empty with the same capacity field answers
  the same operations in the same way: the same admissions, the same evicted tasks and
  the same popped tasks.
\<close>

theorem audio_queue_is_one_fifo:
  assumes "aq_exec (aq_empty m) ops = (os, a)"
  shows "admitted (map task_op ops) os = map snd (pushed ops) \<and>
         map snd (pushed ops) = removed os @ map snd (aq_q a) \<and>
         aq_push b x =
           (if \<exists>c. cap_of (aq_max_size b) = Some c \<and> c \<le> int (length (aq_q b))
            then (Some (snd (hd (aq_q b))), b\<lparr>aq_q := tl (aq_q b) @ [x]\<rparr>)
            else (None, b\<lparr>aq_q := aq_q b @ [x]\<rparr>)) \<and>
         ((\<exists>c. cap_of (aq_max_size b) = Some c \<and> c \<le> int (length (aq_q b))) \<longrightarrow>
            aq_q b \<noteq> []) \<and>
         aq_pop b = (case aq_q b of [] \<Rightarrow> None | y # ys \<Rightarrow> Some (y, b\<lparr>aq_q := ys\<rparr>)) \<and>
         ((\<forall>y. Push y \<in> set ops \<longrightarrow> priority (snd y) = HIGH) \<longrightarrow>
            fst (pq_exec (pq_empty m) (map task_op ops)) = os)"
proof -
  have 1: "admitted (map task_op ops) os = map snd (pushed ops)"
    using aq_exec_all_admitted[OF assms] .
  have 2: "map snd (pushed ops) = removed os @ map snd (aq_q a)"
    using aq_exec_fifo[OF assms] by (simp add: aq_empty_def)
  have 3: "(\<forall>y. Push y \<in> set ops \<longrightarrow> priority (snd y) = HIGH) \<longrightarrow>
            fst (pq_exec (pq_empty m) (map task_op ops)) = os"
  proof
    assume h: "\<forall>y. Push y \<in> set ops \<longrightarrow> priority (snd y) = HIGH"
    from exec_high_only[OF h, of "pq_empty m" "aq_empty m"] assms
    show "fst (pq_exec (pq_empty m) (map task_op ops)) = os"
      by (simp add: pq_empty_def aq_empty_def)
  qed
  have 4: "aq_pop b = (case aq_q b of [] \<Rightarrow> None | y # ys \<Rightarrow> Some (y, b\<lparr>aq_q := ys\<rparr>))"
    by (simp add: aq_pop_def split: list.splits)
  show ?thesis using 1 2 3 4 aq_push_cases[of b x] by blast
qed

theorem audio_queue_is_one_fifo_witness:
  "aq_exec (aq_empty (PyInt 2))
     [Push ((), mk_task ''h'' HIGH), Push ((), mk_task ''g'' HIGH), Push ((), mk_task ''f'' HIGH),
      Pop] =
     ([Pushed True None, Pushed True None, Pushed True (Some (mk_task ''h'' HIGH)),
       Popped (Some (mk_task ''g'' HIGH))],
      \<lparr>aq_max_size = PyInt 2, aq_q = [((), mk_task ''f'' HIGH)]\<rparr>) \<and>
   fst (pq_exec (pq_empty (PyInt 2))
     (map task_op [Push ((), mk_task ''h'' HIGH), Push ((), mk_task ''g'' HIGH),
                   Push ((), mk_task ''f'' HIGH), Pop])) =
     [Pushed True None, Pushed True None, Pushed True (Some (mk_task ''h'' HIGH)),
      Popped (Some (mk_task ''g'' HIGH))] \<and>
   aq_push \<lparr>aq_max_size = PyInt 1, aq_q = [((), mk_task ''h'' HIGH)]\<rparr>
     ((), mk_task ''n'' NORMAL) =
     (Some (mk_task ''h'' HIGH), \<lparr>aq_max_size = PyInt 1, aq_q = [((), mk_task ''n'' NORMAL)]\<rparr>)"
proof -
  have e: "aq_exec (aq_empty (PyInt 2))
     [Push ((), mk_task ''h'' HIGH), Push ((), mk_task ''g'' HIGH), Push ((), mk_task ''f'' HIGH),
      Pop] =
     ([Pushed True None, Pushed True None, Pushed True (Some (mk_task ''h'' HIGH)),
       Popped (Some (mk_task ''g'' HIGH))],
      \<lparr>aq_max_size = PyInt 2, aq_q = [((), mk_task ''f'' HIGH)]\<rparr>)"
    by (simp add: aq_empty_def mk_task_def aq_push_def aq_pop_def)
  have h: "\<forall>y. Push y \<in> set [Push ((), mk_task ''h'' HIGH), Push ((), mk_task ''g'' HIGH),
      Push ((), mk_task ''f'' HIGH), Pop] \<longrightarrow> priority (snd y) = HIGH"
    by (auto simp: mk_task_def)
  from audio_queue_is_one_fifo[OF e,
      of "\<lparr>aq_max_size = PyInt 1, aq_q = [((), mk_task ''h'' HIGH)]\<rparr>"
         "((), mk_task ''n'' NORMAL)"] e h
  show ?thesis by simp
qed

text \<open>
  Claim C2 as stated fails once a NORMAL task is involved: after pushing a NORMAL task
  and then a HIGH task, the predict queue pops the HIGH task and the audio queue the
  NORMAL one.
\<close>

theorem audio_queue_differs_from_predict_queue:
  "fst (pq_exec (pq_empty PyNone)
          (map task_op [Push ((), mk_task ''n'' NORMAL), Push ((), mk_task ''h'' HIGH), Pop]))
   \<noteq> fst (aq_exec (aq_empty PyNone)
          [Push ((), mk_task ''n'' NORMAL), Push ((), mk_task ''h'' HIGH), Pop])"
  by (simp add: pq_empty_def aq_empty_def mk_task_def pq_push_def aq_push_def pq_enqueue_def
      pq_pop_def aq_pop_def)

section \<open>Properties of the service facade\<close>

text \<open>
  A HIGH task enqueued on a full predict queue: the eviction callback fires inside
  \<^verbatim>\<open>push\<close>, so \<^verbatim>\<open>cancelled\<close> for the victim precedes \<^verbatim>\<open>pending\<close> for the new task.
\<close>

lemma high_enqueue_on_full_queue:
  assumes "cfg s = Some c" and "tts_enabled c"
    and "cap_of (configured_cap c) = Some n"
    and "n \<le> int (pq_size (predict_q s))"
  shows "fst (enqueue_text replace s txt HIGH k room) = True \<and>
         emitted (snd (enqueue_text replace s txt HIGH k room)) =
           emitted s @
             [(room_id (hd (pq_normal (predict_q s) @ pq_high (predict_q s))),
               key (hd (pq_normal (predict_q s) @ pq_high (predict_q s))), ''cancelled''),
              (room, k, ''pending'')]"
  using assms cap_of_pos[of "configured_cap c" n]
  by (auto simp: Let_def enqueue_text_def pq_push_def pq_size_def pq_evict_def pq_enqueue_def
      on_evict_def emit_status_def split: option.splits list.splits)

text \<open>
  Claim C1, as the code has it. A NORMAL task enqueued while the predict queue is full is
  rejected: \<^verbatim>\<open>enqueue_text\<close> returns \<^verbatim>\<open>False\<close>, the two deques are unchanged and no
  \<^verbatim>\<open>pending\<close> is emitted. When the task has no key, no status event is emitted at all;
  when it has a key, exactly one \<^verbatim>\<open>cancelled\<close> event for the rejected task is emitted.
\<close>

theorem rejected_push_status:
  assumes "cfg s = Some c" and "tts_enabled c"
    and "cap_of (configured_cap c) = Some n"
    and "n \<le> int (pq_size (predict_q s))"
  shows "fst (enqueue_text replace s txt NORMAL k room) = False \<and>
         emitted (snd (enqueue_text replace s txt NORMAL k room)) =
           emitted s @ (case k of None \<Rightarrow> [] | Some _ \<Rightarrow> [(room, k, ''cancelled'')]) \<and>
         pq_high (predict_q (snd (enqueue_text replace s txt NORMAL k room))) =
           pq_high (predict_q s) \<and>
         pq_normal (predict_q (snd (enqueue_text replace s txt NORMAL k room))) =
           pq_normal (predict_q s)"
  using assms
  by (auto simp: Let_def enqueue_text_def pq_push_def pq_size_def on_evict_def emit_status_def
      split: option.splits)

theorem rejected_push_status_witness:
  "cfg busy_service = Some settings0 \<and> tts_enabled settings0 \<and>
   cap_of (configured_cap settings0) = Some 1 \<and>
   1 \<le> int (pq_size (predict_q busy_service)) \<and>
   fst (enqueue_text no_rules busy_service ''hello'' NORMAL None (Some 7)) = False \<and>
   emitted (snd (enqueue_text no_rules busy_service ''hello'' NORMAL None (Some 7))) = [] \<and>
   emitted (snd (enqueue_text no_rules busy_service ''hello'' NORMAL (Some ''k'') (Some 7))) =
     [(Some 7, Some ''k'', ''cancelled'')]"
  using rejected_push_status[of busy_service settings0 1 no_rules "''hello''" None "Some 7"]
    rejected_push_status[of busy_service settings0 1 no_rules "''hello''" "Some ''k''" "Some 7"]
  by (simp add: busy_service_def new_service_def settings0_def configured_cap_def pq_size_def)

text \<open>
  Claim C1 as stated fails for a task with a key: the rejected enqueue below emits
  \<^verbatim>\<open>cancelled\<close> for the very task that was refused.
\<close>

theorem rejected_keyed_push_emits_cancelled:
  "enqueue_text no_rules busy_service ''hello'' NORMAL (Some ''k'') (Some 7) =
     (False,
      busy_service\<lparr>audio_q := aq_empty (PyInt 1),
        emitted := [(Some 7, Some ''k'', ''cancelled'')],
        delivered := [(Some 7, Some ''k'', ''cancelled'')]\<rparr>)"
  by (simp add: Let_def enqueue_text_def busy_service_def new_service_def settings0_def no_rules_def
      configured_cap_def pq_push_def pq_size_def mk_task_def on_evict_def emit_status_def
      aq_empty_def pq_empty_def)

section \<open>Properties of the playback worker\<close>

text \<open>
  When \<^verbatim>\<open>audio.export\<close> returns, the task popped gets \<^verbatim>\<open>playing\<close> and then
  \<^verbatim>\<open>done\<close>, once each, whatever the two renderers do.
\<close>

lemma exported_task_gets_playing_then_done:
  assumes "export_ok env" and "aq_pop (audio_q s) = Some ((au, t), a1)"
  shows "\<exists>s'. play_worker_step env s = Some (render env, s') \<and>
           audio_q s' = a1 \<and>
           emitted s' = emitted s @
             [(room_id t, key t, ''playing''), (room_id t, key t, ''done'')]"
  using assms by (simp add: play_worker_step_def emit_status_def Let_def)

text \<open>
  Claim C7 says that every task popped by the playback worker gets one \<^verbatim>\<open>playing\<close>
  and then one \<^verbatim>\<open>done\<close> event and is never left at \<^verbatim>\<open>playing\<close>. The
  \<^verbatim>\<open>try ... finally\<close> that emits \<^verbatim>\<open>done\<close> starts after \<^verbatim>\<open>audio.export\<close>: when
  the export raises, the iteration ends in the outer handler with \<^verbatim>\<open>playing\<close> as the
  only event of the task.
\<close>

theorem export_failure_leaves_task_playing:
  "play_worker_step
     \<lparr>export_ok = False, winsound_ok = True, ffplay_found = True, ffplay_ok = True\<rparr>
     playing_service =
   Some ([Play_worker_error],
         playing_service\<lparr>audio_q := aq_empty PyNone,
           emitted := [(Some 1, Some ''a'', ''playing'')],
           delivered := [(Some 1, Some ''a'', ''playing'')]\<rparr>)"
  by (simp add: play_worker_step_def playing_service_def new_service_def aq_pop_def
      emit_status_def mk_task_def aq_empty_def Let_def)

section \<open>Properties of model selection\<close>

lemma strip_url0: "strip ''http://localhost:9872/'' = ''http://localhost:9872/''"
  by (simp add: strip_def is_space_def)

lemma strip_settings0: "strip (gradio_server_url settings0) = ''http://localhost:9872/''"
  by (simp add: settings0_def strip_url0)

lemma rstrip_slash_add: "rstrip_slash (b @ ''/'') = rstrip_slash b"
  by (simp add: rstrip_slash_def)

lemma rstrip_slash_new_client: "rstrip_slash (base_url (new_client b)) = rstrip_slash b"
  by (simp add: new_client_def rstrip_slash_add)

lemma ensure_base_url: "ensure env cl = (r, cl1) \<Longrightarrow> base_url cl1 = base_url cl"
  by (auto simp: ensure_def split: if_splits option.splits)

lemma predict_result:
  assumes "predict env api answered cl = (r, p, cl1)"
  shows "base_url cl1 = base_url cl \<and> (p = [] \<or> p = [api]) \<and> (r \<longrightarrow> p = [api])"
proof -
  obtain e cl0 where en: "ensure env cl = (e, cl0)" by (cases "ensure env cl") auto
  from ensure_base_url[OF en] assms en show ?thesis
    by (auto simp: predict_def split: if_splits option.splits)
qed

lemma select_models_result:
  assumes "select_models env cl = (r, p, cl1)"
  shows "base_url cl1 = base_url cl \<and> (p = [] \<or> p = [''/change_sovits_weights''] \<or> p = both_calls) \<and>
         (r \<longrightarrow> p = both_calls)"
proof -
  obtain r1 p1 c1 where a: "predict env ''/change_sovits_weights'' (sovits_ok env) cl = (r1, p1, c1)"
    by (cases "predict env ''/change_sovits_weights'' (sovits_ok env) cl") auto
  obtain r2 p2 c2 where b: "predict env ''/change_gpt_weights'' (gpt_ok env) c1 = (r2, p2, c2)"
    by (cases "predict env ''/change_gpt_weights'' (gpt_ok env) c1") auto
  note ra = predict_result[OF a] and rb = predict_result[OF b]
  show ?thesis
  proof (cases r1)
    case False
    then have "r = False" "p = p1" "cl1 = c1" using assms a by (simp_all add: select_models_def)
    then show ?thesis using ra False by (auto simp: both_calls_def)
  next
    case True
    then have "r = r2" "p = p1 @ p2" "cl1 = c2"
      using assms a b by (simp_all add: select_models_def)
    moreover have "p1 = [''/change_sovits_weights'']" using ra True by simp
    ultimately show ?thesis using ra rb by (auto simp: both_calls_def)
  qed
qed

lemma worker_call:
  assumes "ensure_and_select_models (Some c) e st = (r, p, st1)"
  shows "(p = [] \<or> p = [''/change_sovits_weights''] \<or> p = both_calls) \<and>
         (p \<noteq> [] \<longrightarrow> \<not> worker_selected c st) \<and>
         (r \<longrightarrow> worker_selected c st1 \<and> (\<not> worker_selected c st \<longrightarrow> p = both_calls)) \<and>
         (\<not> r \<and> strip (gradio_server_url c) \<noteq> [] \<longrightarrow>
            w_client st1 = None \<and> w_selected_sig st1 = None) \<and>
         (strip (gradio_server_url c) = [] \<longrightarrow> p = [] \<and> st1 = st) \<and>
         (worker_selected c st \<longrightarrow> p = [] \<and> worker_selected c st1)"
proof (cases "strip (gradio_server_url c) = []")
  case True
  then show ?thesis using assms by (auto simp: ensure_and_select_models_def)
next
  case False
  define base where "base = strip (gradio_server_url c)"
  define recreate where "recreate =
    (case w_client st of None \<Rightarrow> True
     | Some c0 \<Rightarrow> rstrip_slash (base_url c0) \<noteq> rstrip_slash base)"
  define cl where "cl = (if recreate then new_client base else the (w_client st))"
  define sel where "sel = (if recreate then None else w_selected_sig st)"
  have pair: "(case w_client st of
                 None \<Rightarrow> (new_client base, None)
               | Some c0 \<Rightarrow>
                   if rstrip_slash (base_url c0) \<noteq>
                      rstrip_slash (if endswith_slash base then base else base @ ''/'')
                   then (new_client base, None)
                   else (c0, w_selected_sig st)) = (cl, sel)"
    by (auto simp: cl_def sel_def recreate_def rstrip_slash_add split: option.splits)
  have clb: "rstrip_slash (base_url cl) = rstrip_slash base"
    by (auto simp: cl_def recreate_def rstrip_slash_new_client split: option.splits)
  have selq: "worker_selected c st \<longleftrightarrow> sel = Some (sig_of base c)"
    by (auto simp: worker_selected_def sel_def recreate_def base_def split: option.splits)
  obtain rr pp cc where sm: "select_models e cl = (rr, pp, cc)"
    by (cases "select_models e cl") auto
  note res = select_models_result[OF sm]
  show ?thesis
  proof (cases "sel = Some (sig_of base c)")
    case True
    then have "r = True" "p = []" "st1 = st\<lparr>w_client := Some cl, w_selected_sig := sel\<rparr>"
      using assms False pair
      by (simp_all add: ensure_and_select_models_def base_def[symmetric] Let_def)
    then show ?thesis using True selq clb False
      by (simp add: worker_selected_def base_def)
  next
    case ns: False
    show ?thesis
    proof (cases rr)
      case True
      then have "r = True" "p = pp"
        "st1 = st\<lparr>w_client := Some cc, w_selected_sig := Some (sig_of base c),
                   gradio_ready := True\<rparr>"
        using assms False pair ns sm
        by (simp_all add: ensure_and_select_models_def base_def[symmetric] Let_def)
      then show ?thesis using True res ns selq clb False
        by (simp add: worker_selected_def base_def)
    next
      case f: False
      then have "r = False" "p = pp"
        "st1 = st\<lparr>w_client := None, w_selected_sig := None, gradio_ready := False\<rparr>"
        using assms False pair ns sm
        by (simp_all add: ensure_and_select_models_def base_def[symmetric] Let_def)
      then show ?thesis using res ns selq False by simp
    qed
  qed
qed

lemma http_call:
  assumes "ensure_client_and_models c e st = (res, p, st1)"
  shows "(p = [] \<or> p = [''/change_sovits_weights''] \<or> p = both_calls) \<and>
         (p \<noteq> [] \<longrightarrow> \<not> http_selected c st) \<and>
         (res = Inr True \<longrightarrow>
            http_selected c st1 \<and> (\<not> http_selected c st \<longrightarrow> p = both_calls)) \<and>
         (res = Inr False \<and> strip (gradio_server_url c) \<noteq> [] \<longrightarrow>
            \<not> http_selected c st1 \<and>
            (\<exists>cl. http_client st1 = Some cl \<and>
                  rstrip_slash (base_url cl) = rstrip_slash (strip (gradio_server_url c)))) \<and>
         (strip (gradio_server_url c) = [] \<longrightarrow> p = [] \<and> st1 = st) \<and>
         (http_selected c st \<longrightarrow> p = [] \<and> http_selected c st1)"
proof (cases "strip (gradio_server_url c) = []")
  case True
  then show ?thesis using assms by (auto simp: ensure_client_and_models_def)
next
  case False
  define base where "base = strip (gradio_server_url c)"
  define recreate where "recreate =
    (case http_client st of None \<Rightarrow> True
     | Some c0 \<Rightarrow> rstrip_slash (base_url c0) \<noteq> rstrip_slash base)"
  define cl where "cl = (if recreate then new_client base else the (http_client st))"
  define sel where "sel = (if recreate then None else selected_sig st)"
  have pair: "(case http_client st of
                 None \<Rightarrow> (new_client base, None)
               | Some c0 \<Rightarrow>
                   if rstrip_slash (base_url c0) \<noteq> rstrip_slash base
                   then (new_client base, None)
                   else (c0, selected_sig st)) = (cl, sel)"
    by (auto simp: cl_def sel_def recreate_def split: option.splits)
  have clb: "rstrip_slash (base_url cl) = rstrip_slash base"
    by (auto simp: cl_def recreate_def rstrip_slash_new_client split: option.splits)
  have selq: "http_selected c st \<longleftrightarrow> sel = Some (sig_of base c)"
    by (auto simp: http_selected_def sel_def recreate_def base_def split: option.splits)
  obtain en c1 where en: "ensure e cl = (en, c1)" by (cases "ensure e cl") auto
  have c1b: "rstrip_slash (base_url c1) = rstrip_slash base"
    using ensure_base_url[OF en] clb by simp
  obtain rr pp cc where sm: "select_models e c1 = (rr, pp, cc)"
    by (cases "select_models e c1") auto
  note res = select_models_result[OF sm]
  show ?thesis
  proof (cases en)
    case nf: False
    then have "res = Inl Config_fetch_failed" "p = []"
      "st1 = \<lparr>http_client = Some c1, selected_sig = sel\<rparr>"
      using assms False pair en
      by (simp_all add: ensure_client_and_models_def base_def[symmetric] Let_def)
    then show ?thesis using selq c1b False
      by (simp add: http_selected_def base_def)
  next
    case ok: True
    show ?thesis
    proof (cases "sel = Some (sig_of base c)")
      case True
      then have "res = Inr True" "p = []" "st1 = \<lparr>http_client = Some c1, selected_sig = sel\<rparr>"
        using assms False pair en ok
        by (simp_all add: ensure_client_and_models_def base_def[symmetric] Let_def)
      then show ?thesis using True selq c1b False
        by (simp add: http_selected_def base_def)
    next
      case ns: False
      show ?thesis
      proof (cases rr)
        case True
        then have "res = Inr True" "p = pp"
          "st1 = \<lparr>http_client = Some cc, selected_sig = Some (sig_of base c)\<rparr>"
          using assms False pair en ok ns sm
          by (simp_all add: ensure_client_and_models_def base_def[symmetric] Let_def)
        then show ?thesis using True res ns selq c1b False
          by (simp add: http_selected_def base_def)
      next
        case f: False
        then have "res = Inr False" "p = pp"
          "st1 = \<lparr>http_client = Some cc, selected_sig = sel\<rparr>"
          using assms False pair en ok ns sm
          by (simp_all add: ensure_client_and_models_def base_def[symmetric] Let_def)
        then show ?thesis using res ns selq c1b False
          by (simp add: http_selected_def base_def)
      qed
    qed
  qed
qed

lemma worker_run_Cons:
  "ensure_and_select_models (Some c) e st = (r1, p1, st1) \<Longrightarrow>
   worker_run c (e # es) st = (st, r1, p1, st1) # worker_run c es st1"
  by simp

lemma http_run_Cons:
  "ensure_client_and_models c e st = (r1, p1, st1) \<Longrightarrow>
   http_run c (e # es) st = (st, r1, p1, st1) # http_run c es st1"
  by simp

lemma worker_run_each:
  assumes "(pre, r, p, post) \<in> set (worker_run c envs st)"
  shows "(p = [] \<or> p = [''/change_sovits_weights''] \<or> p = both_calls) \<and>
         (p \<noteq> [] \<longrightarrow> \<not> worker_selected c pre) \<and>
         (r \<longrightarrow> worker_selected c post \<and> (\<not> worker_selected c pre \<longrightarrow> p = both_calls)) \<and>
         (\<not> r \<and> strip (gradio_server_url c) \<noteq> [] \<longrightarrow>
            w_client post = None \<and> w_selected_sig post = None)"
  using assms
proof (induction envs arbitrary: st)
  case Nil
  then show ?case by simp
next
  case (Cons e es)
  obtain r1 p1 st1 where a: "ensure_and_select_models (Some c) e st = (r1, p1, st1)"
    by (cases "ensure_and_select_models (Some c) e st") auto
  note w = worker_call[OF a]
  from Cons.prems
  have "(pre, r, p, post) = (st, r1, p1, st1) \<or> (pre, r, p, post) \<in> set (worker_run c es st1)"
    unfolding worker_run_Cons[OF a] by simp
  then show ?case
  proof
    assume "(pre, r, p, post) = (st, r1, p1, st1)"
    then have eq: "pre = st" "r = r1" "p = p1" "post = st1" by simp_all
    show ?thesis unfolding eq using w by blast
  next
    assume "(pre, r, p, post) \<in> set (worker_run c es st1)"
    then show ?thesis by (rule Cons.IH)
  qed
qed

lemma worker_post_inv:
  assumes "ensure_and_select_models (Some c) e st = (r1, p1, st1)"
  shows "worker_selected c st1 \<or> w_client st1 = None \<or> strip (gradio_server_url c) = []"
  using worker_call[OF assms] by blast

lemma worker_run_later:
  assumes "worker_selected c st \<or> w_client st = None \<or> strip (gradio_server_url c) = []"
    and "(pre, r, p, post) \<in> set (worker_run c envs st)" and "p \<noteq> []"
  shows "w_client pre = None"
  using assms
proof (induction envs arbitrary: st)
  case Nil
  then show ?case by simp
next
  case (Cons e es)
  obtain r1 p1 st1 where a: "ensure_and_select_models (Some c) e st = (r1, p1, st1)"
    by (cases "ensure_and_select_models (Some c) e st") auto
  note w = worker_call[OF a]
  from Cons.prems(2)
  have "(pre, r, p, post) = (st, r1, p1, st1) \<or> (pre, r, p, post) \<in> set (worker_run c es st1)"
    unfolding worker_run_Cons[OF a] by simp
  then show ?case
  proof
    assume "(pre, r, p, post) = (st, r1, p1, st1)"
    then have eq: "pre = st" "p = p1" by simp_all
    have "p1 \<noteq> []" using Cons.prems(3) unfolding eq .
    then have "\<not> worker_selected c st" "strip (gradio_server_url c) \<noteq> []" using w by blast+
    then have "w_client st = None" using Cons.prems(1) by blast
    then show ?thesis unfolding eq .
  next
    assume m: "(pre, r, p, post) \<in> set (worker_run c es st1)"
    from Cons.IH[OF worker_post_inv[OF a] m Cons.prems(3)] show ?thesis .
  qed
qed

lemma worker_run_tl:
  assumes "(pre, r, p, post) \<in> set (tl (worker_run c envs st))" and "p \<noteq> []"
  shows "w_client pre = None"
proof (cases envs)
  case Nil
  then show ?thesis using assms(1) by simp
next
  case (Cons e es)
  obtain r1 p1 st1 where a: "ensure_and_select_models (Some c) e st = (r1, p1, st1)"
    by (cases "ensure_and_select_models (Some c) e st") auto
  have "(pre, r, p, post) \<in> set (worker_run c es st1)"
    using assms(1) unfolding Cons worker_run_Cons[OF a] by simp
  from worker_run_later[OF worker_post_inv[OF a] this assms(2)] show ?thesis .
qed

lemma issued_Cons: "issued ((pre, res, p, post) # tr) = p @ issued tr"
  by (simp add: issued_def)

lemma issued_Nil: "issued [] = []"
  by (simp add: issued_def)

lemma worker_run_selected:
  "worker_selected c st \<Longrightarrow> issued (worker_run c envs st) = []"
proof (induction envs arbitrary: st)
  case Nil
  then show ?case by (simp add: issued_Nil)
next
  case (Cons e es)
  obtain r1 p1 st1 where a: "ensure_and_select_models (Some c) e st = (r1, p1, st1)"
    by (cases "ensure_and_select_models (Some c) e st") auto
  from worker_call[OF a] Cons.prems have p: "p1 = []" and s1: "worker_selected c st1"
    by blast+
  show ?case unfolding worker_run_Cons[OF a] issued_Cons p using Cons.IH[OF s1] by simp
qed

lemma worker_run_all_returned:
  assumes "\<forall>(pre, r, p, post) \<in> set (worker_run c envs st). r"
  shows "issued (worker_run c envs st) =
           (if envs = [] \<or> worker_selected c st then [] else both_calls)"
proof (cases envs)
  case Nil
  then show ?thesis by (simp add: issued_Nil)
next
  case (Cons e es)
  obtain r1 p1 st1 where a: "ensure_and_select_models (Some c) e st = (r1, p1, st1)"
    by (cases "ensure_and_select_models (Some c) e st") auto
  have ret: r1 using assms unfolding Cons worker_run_Cons[OF a] by simp
  from worker_call[OF a] ret
  have s1: "worker_selected c st1"
    and p: "worker_selected c st \<longrightarrow> p1 = []" "\<not> worker_selected c st \<longrightarrow> p1 = both_calls"
    by blast+
  have "issued (worker_run c envs st) = p1"
    unfolding Cons worker_run_Cons[OF a] issued_Cons using worker_run_selected[OF s1, of es]
    by simp
  then show ?thesis using p Cons by (cases "worker_selected c st") simp_all
qed

lemma http_run_each:
  assumes "(pre, res, p, post) \<in> set (http_run c envs st)"
  shows "(p = [] \<or> p = [''/change_sovits_weights''] \<or> p = both_calls) \<and>
         (p \<noteq> [] \<longrightarrow> \<not> http_selected c pre) \<and>
         (res = Inr True \<longrightarrow>
            http_selected c post \<and> (\<not> http_selected c pre \<longrightarrow> p = both_calls)) \<and>
         (res = Inr False \<and> strip (gradio_server_url c) \<noteq> [] \<longrightarrow>
            \<not> http_selected c post \<and>
            (\<exists>cl. http_client post = Some cl \<and>
                  rstrip_slash (base_url cl) = rstrip_slash (strip (gradio_server_url c))))"
  using assms
proof (induction envs arbitrary: st)
  case Nil
  then show ?case by simp
next
  case (Cons e es)
  obtain r1 p1 st1 where a: "ensure_client_and_models c e st = (r1, p1, st1)"
    by (cases "ensure_client_and_models c e st") auto
  note w = http_call[OF a]
  from Cons.prems
  have "(pre, res, p, post) = (st, r1, p1, st1) \<or>
        (pre, res, p, post) \<in> set (http_run c es st1)"
    unfolding http_run_Cons[OF a] by simp
  then show ?case
  proof
    assume "(pre, res, p, post) = (st, r1, p1, st1)"
    then have eq: "pre = st" "res = r1" "p = p1" "post = st1" by simp_all
    show ?thesis unfolding eq using w by blast
  next
    assume "(pre, res, p, post) \<in> set (http_run c es st1)"
    then show ?thesis by (rule Cons.IH)
  qed
qed

lemma http_run_selected:
  "http_selected c st \<Longrightarrow> issued (http_run c envs st) = []"
proof (induction envs arbitrary: st)
  case Nil
  then show ?case by (simp add: issued_Nil)
next
  case (Cons e es)
  obtain r1 p1 st1 where a: "ensure_client_and_models c e st = (r1, p1, st1)"
    by (cases "ensure_client_and_models c e st") auto
  from http_call[OF a] Cons.prems have p: "p1 = []" and s1: "http_selected c st1"
    by blast+
  show ?case unfolding http_run_Cons[OF a] issued_Cons p using Cons.IH[OF s1] by simp
qed

lemma http_run_all_returned:
  assumes "\<forall>(pre, res, p, post) \<in> set (http_run c envs st). res = Inr True"
  shows "issued (http_run c envs st) =
           (if envs = [] \<or> http_selected c st then [] else both_calls)"
proof (cases envs)
  case Nil
  then show ?thesis by (simp add: issued_Nil)
next
  case (Cons e es)
  obtain r1 p1 st1 where a: "ensure_client_and_models c e st = (r1, p1, st1)"
    by (cases "ensure_client_and_models c e st") auto
  have ret: "r1 = Inr True" using assms unfolding Cons http_run_Cons[OF a] by simp
  from http_call[OF a] ret
  have s1: "http_selected c st1"
    and p: "http_selected c st \<longrightarrow> p1 = []" "\<not> http_selected c st \<longrightarrow> p1 = both_calls"
    by blast+
  have "issued (http_run c envs st) = p1"
    unfolding Cons http_run_Cons[OF a] issued_Cons using http_run_selected[OF s1, of es]
    by simp
  then show ?thesis using p Cons by (cases "http_selected c st") simp_all
qed

lemma worker_run_chained:
  "chained st (worker_run c envs st) \<and> length (worker_run c envs st) = length envs"
proof (induction envs arbitrary: st)
  case Nil
  show ?case by simp
next
  case (Cons e es)
  obtain r1 p1 st1 where a: "ensure_and_select_models (Some c) e st = (r1, p1, st1)"
    by (cases "ensure_and_select_models (Some c) e st") auto
  show ?case unfolding worker_run_Cons[OF a] using Cons.IH[of st1] by simp
qed

lemma http_run_chained:
  "chained st (http_run c envs st) \<and> length (http_run c envs st) = length envs"
proof (induction envs arbitrary: st)
  case Nil
  show ?case by simp
next
  case (Cons e es)
  obtain r1 p1 st1 where a: "ensure_client_and_models c e st = (r1, p1, st1)"
    by (cases "ensure_client_and_models c e st") auto
  show ?case unfolding http_run_Cons[OF a] using Cons.IH[of st1] by simp
qed

text \<open>
  Claim C8, as the code has it. Under unchanged settings, in any sequence of consecutive
  calls of either selection function: one call sends nothing, the first selection request
  or both, and sends something only when the signature of the settings is not the cached
  one on a client for the configured address; a call that returns true leaves the signature
  cached and, if it was not cached before, has sent both requests; so once the signature is
  cached no request is sent whatever the remote side does, and over calls that all return
  true both requests are sent at most once. In the predict worker a failed call drops the
  client and the cached signature, and every later call that sends a request starts
  without a client and so creates a new one. In the HTTP helper a failed selection keeps
  the client and leaves the signature uncached. Each call starts in the state the call
  before it left.
\<close>

theorem selection_requests_follow_cached_signature:
  "(\<forall>(pre, r, p, post) \<in> set (worker_run c wenvs wst).
      (p = [] \<or> p = [''/change_sovits_weights''] \<or> p = both_calls) \<and>
      (p \<noteq> [] \<longrightarrow> \<not> worker_selected c pre) \<and>
      (r \<longrightarrow> worker_selected c post \<and> (\<not> worker_selected c pre \<longrightarrow> p = both_calls)) \<and>
      (\<not> r \<and> strip (gradio_server_url c) \<noteq> [] \<longrightarrow>
         w_client post = None \<and> w_selected_sig post = None)) \<and>
   (\<forall>(pre, r, p, post) \<in> set (tl (worker_run c wenvs wst)). p \<noteq> [] \<longrightarrow> w_client pre = None) \<and>
   (worker_selected c wst \<longrightarrow> issued (worker_run c wenvs wst) = []) \<and>
   ((\<forall>(pre, r, p, post) \<in> set (worker_run c wenvs wst). r) \<longrightarrow>
      issued (worker_run c wenvs wst) =
        (if wenvs = [] \<or> worker_selected c wst then [] else both_calls)) \<and>
   (\<forall>(pre, res, p, post) \<in> set (http_run c henvs hst).
      (p = [] \<or> p = [''/change_sovits_weights''] \<or> p = both_calls) \<and>
      (p \<noteq> [] \<longrightarrow> \<not> http_selected c pre) \<and>
      (res = Inr True \<longrightarrow>
         http_selected c post \<and> (\<not> http_selected c pre \<longrightarrow> p = both_calls)) \<and>
      (res = Inr False \<and> strip (gradio_server_url c) \<noteq> [] \<longrightarrow>
         \<not> http_selected c post \<and>
         (\<exists>cl. http_client post = Some cl \<and>
               rstrip_slash (base_url cl) = rstrip_slash (strip (gradio_server_url c))))) \<and>
   (http_selected c hst \<longrightarrow> issued (http_run c henvs hst) = []) \<and>
   ((\<forall>(pre, res, p, post) \<in> set (http_run c henvs hst). res = Inr True) \<longrightarrow>
      issued (http_run c henvs hst) =
        (if henvs = [] \<or> http_selected c hst then [] else both_calls)) \<and>
   chained wst (worker_run c wenvs wst) \<and>
   length (worker_run c wenvs wst) = length wenvs \<and>
   chained hst (http_run c henvs hst) \<and>
   length (http_run c henvs hst) = length henvs"
proof (intro conjI impI ballI)
  fix x assume m: "x \<in> set (worker_run c wenvs wst)"
  obtain pre r p post where x: "x = (pre, r, p, post)" by (cases x) auto
  from worker_run_each[OF m[unfolded x]]
  show "case x of (pre, r, p, post) \<Rightarrow>
      (p = [] \<or> p = [''/change_sovits_weights''] \<or> p = both_calls) \<and>
      (p \<noteq> [] \<longrightarrow> \<not> worker_selected c pre) \<and>
      (r \<longrightarrow> worker_selected c post \<and> (\<not> worker_selected c pre \<longrightarrow> p = both_calls)) \<and>
      (\<not> r \<and> strip (gradio_server_url c) \<noteq> [] \<longrightarrow>
         w_client post = None \<and> w_selected_sig post = None)"
    unfolding x prod.case .
next
  fix x assume m: "x \<in> set (tl (worker_run c wenvs wst))"
  obtain pre r p post where x: "x = (pre, r, p, post)" by (cases x) auto
  from worker_run_tl[OF m[unfolded x]]
  show "case x of (pre, r, p, post) \<Rightarrow> p \<noteq> [] \<longrightarrow> w_client pre = None"
    unfolding x prod.case by blast
next
  assume "worker_selected c wst"
  then show "issued (worker_run c wenvs wst) = []" by (rule worker_run_selected)
next
  assume "\<forall>(pre, r, p, post) \<in> set (worker_run c wenvs wst). r"
  then show "issued (worker_run c wenvs wst) =
        (if wenvs = [] \<or> worker_selected c wst then [] else both_calls)"
    by (rule worker_run_all_returned)
next
  fix x assume m: "x \<in> set (http_run c henvs hst)"
  obtain pre res p post where x: "x = (pre, res, p, post)" by (cases x) auto
  from http_run_each[OF m[unfolded x]]
  show "case x of (pre, res, p, post) \<Rightarrow>
      (p = [] \<or> p = [''/change_sovits_weights''] \<or> p = both_calls) \<and>
      (p \<noteq> [] \<longrightarrow> \<not> http_selected c pre) \<and>
      (res = Inr True \<longrightarrow>
         http_selected c post \<and> (\<not> http_selected c pre \<longrightarrow> p = both_calls)) \<and>
      (res = Inr False \<and> strip (gradio_server_url c) \<noteq> [] \<longrightarrow>
         \<not> http_selected c post \<and>
         (\<exists>cl. http_client post = Some cl \<and>
               rstrip_slash (base_url cl) = rstrip_slash (strip (gradio_server_url c))))"
    unfolding x prod.case .
next
  assume "http_selected c hst"
  then show "issued (http_run c henvs hst) = []" by (rule http_run_selected)
next
  assume "\<forall>(pre, res, p, post) \<in> set (http_run c henvs hst). res = Inr True"
  then show "issued (http_run c henvs hst) =
        (if henvs = [] \<or> http_selected c hst then [] else both_calls)"
    by (rule http_run_all_returned)
next
  show "chained wst (worker_run c wenvs wst)" using worker_run_chained[of wst c wenvs] by blast
next
  show "length (worker_run c wenvs wst) = length wenvs"
    using worker_run_chained[of wst c wenvs] by blast
next
  show "chained hst (http_run c henvs hst)" using http_run_chained[of hst c henvs] by blast
next
  show "length (http_run c henvs hst) = length henvs"
    using http_run_chained[of hst c henvs] by blast
qed

lemma load_deps0: "load_deps 0 deps0 [] = fn_map0"
  by (simp add: deps0_def fn_map0_def strip_def is_space_def lstrip_slash_def)

lemma api_keys:
  "lstrip_slash (strip ''/change_sovits_weights'') = ''change_sovits_weights''"
  "lstrip_slash (strip ''/change_gpt_weights'') = ''change_gpt_weights''"
  by (simp_all add: strip_def is_space_def lstrip_slash_def)

lemma new_client0:
  "new_client ''http://localhost:9872/'' =
     \<lparr>base_url = ''http://localhost:9872/'', session = False, fn_map = []\<rparr>"
  by (simp add: new_client_def endswith_slash_def)

lemma env_fields:
  "config env_ok = Some deps0" "sovits_ok env_ok" "gpt_ok env_ok"
  "config env_down = None" "\<not> sovits_ok env_down" "\<not> gpt_ok env_down"
  "config env_gpt_fails = Some deps0" "sovits_ok env_gpt_fails" "\<not> gpt_ok env_gpt_fails"
  by (simp_all add: env_ok_def env_down_def env_gpt_fails_def)

lemma client0_fields:
  "base_url client0 = ''http://localhost:9872/''" "session client0"
  "map_of (fn_map client0) ''change_sovits_weights'' = Some 5"
  "map_of (fn_map client0) ''change_gpt_weights'' = Some 2"
  by (simp_all add: client0_def fn_map0_def)

lemma ensure_new:
  "ensure env_ok (new_client ''http://localhost:9872/'') = (True, client0)"
  "ensure env_gpt_fails (new_client ''http://localhost:9872/'') = (True, client0)"
  "ensure env_down (new_client ''http://localhost:9872/'') =
     (False, \<lparr>base_url = ''http://localhost:9872/'', session = True, fn_map = []\<rparr>)"
  by (simp_all add: ensure_def new_client0 env_fields load_deps0 client0_def)

lemma ensure_client0: "ensure env client0 = (True, client0)"
  by (simp add: ensure_def client0_fields)

lemma predict_client0:
  "predict env ''/change_sovits_weights'' a client0 = (a, [''/change_sovits_weights''], client0)"
  "predict env ''/change_gpt_weights'' a client0 = (a, [''/change_gpt_weights''], client0)"
  by (simp_all add: predict_def ensure_client0 api_keys client0_fields)

lemma predict_new:
  "predict env_ok ''/change_sovits_weights'' a (new_client ''http://localhost:9872/'') =
     (a, [''/change_sovits_weights''], client0)"
  "predict env_gpt_fails ''/change_sovits_weights'' a (new_client ''http://localhost:9872/'') =
     (a, [''/change_sovits_weights''], client0)"
  "predict env_down ''/change_sovits_weights'' a (new_client ''http://localhost:9872/'') =
     (False, [], \<lparr>base_url = ''http://localhost:9872/'', session = True, fn_map = []\<rparr>)"
  by (simp_all add: predict_def ensure_new api_keys client0_fields)

lemma select_client0:
  "select_models env_ok client0 = (True, both_calls, client0)"
  "select_models env_gpt_fails client0 = (False, both_calls, client0)"
  by (simp_all add: select_models_def predict_client0 both_calls_def env_fields)

lemma select_new:
  "select_models env_ok (new_client ''http://localhost:9872/'') = (True, both_calls, client0)"
  "select_models env_down (new_client ''http://localhost:9872/'') =
     (False, [], \<lparr>base_url = ''http://localhost:9872/'', session = True, fn_map = []\<rparr>)"
  by (simp_all add: select_models_def predict_new predict_client0 both_calls_def env_fields)

lemma sig0: "sig_of ''http://localhost:9872/'' settings0 =
    (''http://localhost:9872/'', ''s.pth'', ''g.ckpt'', ''zh'')"
  by (simp add: sig_of_def settings0_def)

lemma rstrip0:
  "rstrip_slash ''http://localhost:9872/'' = ''http://localhost:9872''"
  "rstrip_slash (base_url client0) = ''http://localhost:9872''"
  by (simp_all add: rstrip_slash_def client0_fields)

lemma cached_states:
  "cached_state = \<lparr>http_client = Some client0,
     selected_sig = Some (''http://localhost:9872/'', ''s.pth'', ''g.ckpt'', ''zh'')\<rparr>"
  "cached_worker_state = \<lparr>w_client = Some client0,
     w_selected_sig = Some (''http://localhost:9872/'', ''s.pth'', ''g.ckpt'', ''zh''),
     gradio_ready = True\<rparr>"
  by (simp_all add: cached_state_def cached_worker_state_def client0_def)

lemma worker_calls0:
  "ensure_and_select_models (Some settings0) env_down no_worker_selection =
     (False, [], no_worker_selection)"
  "ensure_and_select_models (Some settings0) env_ok no_worker_selection =
     (True, both_calls, cached_worker_state)"
  "ensure_and_select_models (Some settings0) env cached_worker_state =
     (True, [], cached_worker_state)"
  by (simp_all add: ensure_and_select_models_def strip_settings0 no_worker_selection_def
      cached_states rstrip0 sig0 select_new endswith_slash_def)

lemma http_calls0:
  "ensure_client_and_models settings0 env_ok no_selection = (Inr True, both_calls, cached_state)"
  "ensure_client_and_models settings0 env_gpt_fails no_selection =
     (Inr False, both_calls, \<lparr>http_client = Some client0, selected_sig = None\<rparr>)"
  "ensure_client_and_models settings0 env_ok \<lparr>http_client = Some client0, selected_sig = None\<rparr> =
     (Inr True, both_calls, cached_state)"
  "ensure_client_and_models settings0 env cached_state = (Inr True, [], cached_state)"
  by (simp_all add: ensure_client_and_models_def strip_settings0 no_selection_def
      cached_states rstrip0 sig0 ensure_new ensure_client0 select_client0)

lemma selected0:
  "http_selected settings0 cached_state" "\<not> http_selected settings0 no_selection"
  "worker_selected settings0 cached_worker_state"
  "\<not> worker_selected settings0 no_worker_selection"
  by (simp_all add: http_selected_def worker_selected_def cached_states no_selection_def
      no_worker_selection_def strip_settings0 rstrip0 sig0)

theorem selection_requests_follow_cached_signature_witness:
  "worker_run settings0 [env_down, env_ok, env_ok] no_worker_selection =
     [(no_worker_selection, False, [], no_worker_selection),
      (no_worker_selection, True, both_calls, cached_worker_state),
      (cached_worker_state, True, [], cached_worker_state)] \<and>
   issued (worker_run settings0 [env_down, env_gpt_fails] cached_worker_state) = [] \<and>
   http_run settings0 [env_ok, env_ok] no_selection =
     [(no_selection, Inr True, both_calls, cached_state),
      (cached_state, Inr True, [], cached_state)] \<and>
   issued (http_run settings0 [env_ok, env_ok] no_selection) = both_calls \<and>
   issued (http_run settings0 [env_down, env_gpt_fails] cached_state) = []"
proof -
  have w: "worker_run settings0 [env_down, env_ok, env_ok] no_worker_selection =
     [(no_worker_selection, False, [], no_worker_selection),
      (no_worker_selection, True, both_calls, cached_worker_state),
      (cached_worker_state, True, [], cached_worker_state)]"
    by (simp add: worker_calls0)
  have h: "http_run settings0 [env_ok, env_ok] no_selection =
     [(no_selection, Inr True, both_calls, cached_state),
      (cached_state, Inr True, [], cached_state)]"
    by (simp add: http_calls0)
  have all: "\<forall>(pre, res, p, post) \<in> set (http_run settings0 [env_ok, env_ok] no_selection).
      res = Inr True"
    unfolding h by simp
  note t1 = selection_requests_follow_cached_signature[of settings0
      "[env_down, env_gpt_fails]" cached_worker_state "[env_ok, env_ok]" no_selection]
  note t2 = selection_requests_follow_cached_signature[of settings0
      "[env_down, env_gpt_fails]" cached_worker_state "[env_down, env_gpt_fails]" cached_state]
  have a: "issued (worker_run settings0 [env_down, env_gpt_fails] cached_worker_state) = []"
    using t1[THEN conjunct2, THEN conjunct2, THEN conjunct1] selected0(3) by blast
  have b: "issued (http_run settings0 [env_ok, env_ok] no_selection) = both_calls"
    using t1[THEN conjunct2, THEN conjunct2, THEN conjunct2, THEN conjunct2, THEN conjunct2,
        THEN conjunct2, THEN conjunct1] all selected0(2)
    by simp
  have c: "issued (http_run settings0 [env_down, env_gpt_fails] cached_state) = []"
    using t2[THEN conjunct2, THEN conjunct2, THEN conjunct2, THEN conjunct2, THEN conjunct2,
        THEN conjunct1] selected0(1)
    by blast
  show ?thesis using w h a b c by blast
qed

text \<open>
  Claim C8 as stated fails in the HTTP helper: the second selection request fails in the
  first call, and the second call, with the same settings and the same client, sends both
  requests again.
\<close>

theorem failed_selection_is_reissued:
  "http_run settings0 [env_gpt_fails, env_ok] no_selection =
     [(no_selection, Inr False, both_calls,
       \<lparr>http_client = Some client0, selected_sig = None\<rparr>),
      (\<lparr>http_client = Some client0, selected_sig = None\<rparr>, Inr True, both_calls,
       cached_state)] \<and>
   issued (http_run settings0 [env_gpt_fails, env_ok] no_selection) =
     [''/change_sovits_weights'', ''/change_gpt_weights'',
      ''/change_sovits_weights'', ''/change_gpt_weights'']"
  by (simp add: http_calls0 issued_def both_calls_def)

section \<open>Properties of the health probe\<close>

text \<open>
  Claim C9, as the code has it. When the probe's request fails, \<^verbatim>\<open>gradio_health\<close>
  returns \<^verbatim>\<open>ok = False\<close> and \<^verbatim>\<open>ready = False\<close> with a message and raises nothing; the
  answer does not depend on the cached client or selection. With a server address
  configured, the failure clears the cached selection signature and closes the session of
  the cached client, which stays in place; with no address configured the cache is left
  as it is.
\<close>

theorem health_probe_on_unreachable_server:
  "ok (fst (gradio_health c (Raises e) st)) = False \<and>
   ready (fst (gradio_health c (Raises e) st)) = False \<and>
   message (fst (gradio_health c (Raises e) st)) \<noteq> None \<and>
   fst (gradio_health c (Raises e) st') = fst (gradio_health c (Raises e) st) \<and>
   (strip (gradio_server_url c) \<noteq> [] \<longrightarrow>
      message (fst (gradio_health c (Raises e) st)) = Some (Exception_text e) \<and>
      snd (gradio_health c (Raises e) st) =
        \<lparr>http_client = map_option (\<lambda>cl. cl\<lparr>session := False\<rparr>) (http_client st),
          selected_sig = None\<rparr>) \<and>
   (strip (gradio_server_url c) = [] \<longrightarrow> snd (gradio_health c (Raises e) st) = st)"
  by (simp add: gradio_health_def Let_def)

theorem health_probe_on_unreachable_server_witness:
  "strip (gradio_server_url settings0) \<noteq> [] \<and>
   fst (gradio_health settings0 (Raises ''refused'') cached_state) =
     \<lparr>ok = False, ready = False, url = ''http://localhost:9872/'',
       message = Some (Exception_text ''refused'')\<rparr> \<and>
   snd (gradio_health settings0 (Raises ''refused'') cached_state) =
     \<lparr>http_client =
        Some \<lparr>base_url = ''http://localhost:9872/'', session = False, fn_map = fn_map0\<rparr>,
       selected_sig = None\<rparr>"
  using health_probe_on_unreachable_server[of settings0 "''refused''" cached_state cached_state]
  by (simp add: strip_settings0 cached_state_def gradio_health_def Let_def)

text \<open>
  Claim C9 as stated fails in its last part: a failed probe changes the cached selection
  state and the cached client's session.
\<close>

theorem health_probe_clears_cached_selection:
  "snd (gradio_health settings0 (Raises ''refused'') cached_state) =
     \<lparr>http_client =
        Some \<lparr>base_url = ''http://localhost:9872/'', session = False, fn_map = fn_map0\<rparr>,
       selected_sig = None\<rparr> \<and>
   snd (gradio_health settings0 (Raises ''refused'') cached_state) \<noteq> cached_state"
  by (simp add: gradio_health_def strip_settings0 cached_state_def Let_def)

end
